theory Spec2Isabelle
  imports Main "HOL-Library.Word"
begin

unbundle bit_operations_syntax

section \<open>Configuration and derived constants (config.h, mlpt.c lines 8-17)\<close>

text \<open>
  \<open>size_t\<close> is the 64-bit unsigned word of an LP64 platform: the source fixes
  \<open>BITS_PER_LEVEL = POBITS - 3\<close>, that is eight-byte table entries.
\<close>

type_synonym word64 = "64 word"

definition LEVELS :: nat where
  "LEVELS = 3"

definition POBITS :: nat where
  "POBITS = 10"

definition PAGE_SIZE :: word64 where
  "PAGE_SIZE = push_bit POBITS 1"

definition PAGE_MASK :: word64 where
  "PAGE_MASK = NOT (PAGE_SIZE - 1)"

text \<open>\<open>PAGE_SIZE / sizeof(size_t)\<close> with \<open>sizeof(size_t) = 8\<close>.\<close>

definition ENTRIES_PER_TABLE :: word64 where
  "ENTRIES_PER_TABLE = PAGE_SIZE div 8"

definition VALID_FLAG :: word64 where
  "VALID_FLAG = 1"

definition ENTRY_TO_PHYS_ADDR :: "word64 \<Rightarrow> word64" where
  "ENTRY_TO_PHYS_ADDR pte = pte AND PAGE_MASK"

definition BITS_PER_LEVEL :: nat where
  "BITS_PER_LEVEL = POBITS - 3"

definition LEVEL_INDEX_MASK :: word64 where
  "LEVEL_INDEX_MASK = push_bit BITS_PER_LEVEL 1 - 1"

text \<open>The value \<open>~0UL\<close> that \<open>translate\<close> returns for an unmapped address.\<close>

definition NOT_MAPPED :: word64 where
  "NOT_MAPPED = NOT 0"

section \<open>Address decomposition (mlpt.c lines 25-28 and 45-52)\<close>

definition extract_level_index :: "word64 \<Rightarrow> nat \<Rightarrow> word64" where
  "extract_level_index virtual_addr level =
     (let shift_amount = POBITS + level * BITS_PER_LEVEL
      in drop_bit shift_amount virtual_addr AND LEVEL_INDEX_MASK)"

text \<open>
  The loop \<open>for (level = LEVELS - 1; level >= 0; level -= 1)\<close> of
  \<open>is_address_valid\<close>; the first argument is \<open>level + 1\<close>, so \<open>0\<close> is the
  loop's exit. The C result \<open>1\<close> is \<open>True\<close> and \<open>0\<close> is \<open>False\<close>.
\<close>

fun is_address_valid_loop :: "nat \<Rightarrow> word64 \<Rightarrow> bool" where
  "is_address_valid_loop 0 virtual_addr = True"
| "is_address_valid_loop (Suc level) virtual_addr =
     (if extract_level_index virtual_addr level \<ge> ENTRIES_PER_TABLE then False
      else is_address_valid_loop level virtual_addr)"

definition is_address_valid :: "word64 \<Rightarrow> bool" where
  "is_address_valid virtual_addr = is_address_valid_loop LEVELS virtual_addr"

section \<open>Memory: the blocks handed out by \<open>posix_memalign\<close>\<close>

text \<open>
  The store maps the base address of every live block to its contents, a block being
  \<open>PAGE_SIZE\<close> bytes read as an array of \<open>size_t\<close>. The program only ever reads
  and writes \<open>table[index]\<close> through a block's base address. An access outside a live
  block is undefined behaviour in C; here it is the result \<open>None\<close>.
\<close>

type_synonym table = "word64 list"
type_synonym memory = "word64 \<rightharpoonup> table"

record state =
  ptbr :: word64
  mem :: memory

definition initial_state :: state where
  "initial_state = \<lparr>ptbr = 0, mem = Map.empty\<rparr>"

definition load :: "memory \<Rightarrow> word64 \<Rightarrow> word64 \<Rightarrow> word64 option" where
  "load m tbl i =
     (case m tbl of
        None \<Rightarrow> None
      | Some t \<Rightarrow> if unat i < length t then Some (t ! unat i) else None)"

definition store :: "memory \<Rightarrow> word64 \<Rightarrow> word64 \<Rightarrow> word64 \<Rightarrow> memory option" where
  "store m tbl i x =
     (case m tbl of
        None \<Rightarrow> None
      | Some t \<Rightarrow> if unat i < length t then Some (m(tbl \<mapsto> t[unat i := x])) else None)"

text \<open>\<open>free(p)\<close>: a null pointer is accepted and ignored, a live block is released.\<close>

definition free :: "memory \<Rightarrow> word64 \<Rightarrow> memory option" where
  "free m p =
     (if p = 0 then Some m
      else case m p of None \<Rightarrow> None | Some t \<Rightarrow> Some (m(p := None)))"

text \<open>
  \<open>allocate_aligned_page\<close> (lines 33-40). What \<open>posix_memalign\<close> answers is not
  decided by the program, so the answers of the calls still to come are an argument:
  \<open>Some p\<close> is a block at address \<open>p\<close>, \<open>None\<close> (and an exhausted list) is a
  refusal. The function returns the pointer (\<open>None\<close> for \<open>NULL\<close>), the answers
  left, and the memory with the new block zeroed by \<open>memset\<close>.
\<close>

definition allocate_aligned_page ::
  "word64 option list \<Rightarrow> memory \<Rightarrow> word64 option \<times> word64 option list \<times> memory" where
  "allocate_aligned_page answers m =
     (case answers of
        [] \<Rightarrow> (None, [], m)
      | None # rest \<Rightarrow> (None, rest, m)
      | Some new_page # rest \<Rightarrow>
          (Some new_page, rest, m(new_page \<mapsto> replicate (unat ENTRIES_PER_TABLE) 0)))"

section \<open>\<open>translate\<close> (mlpt.c lines 54-84)\<close>

text \<open>
  The walk \<open>for (level = LEVELS - 1; level >= 0; level -= 1)\<close>; the first argument is
  \<open>level + 1\<close>, and \<open>0\<close> is the fall-through \<open>return ~0UL\<close> after the loop.
\<close>

fun translate_loop :: "nat \<Rightarrow> word64 \<Rightarrow> word64 \<Rightarrow> memory \<Rightarrow> word64 option" where
  "translate_loop 0 current_table virtual_addr m = Some (NOT 0)"
| "translate_loop (Suc level) current_table virtual_addr m =
     (let page_offset = virtual_addr AND (PAGE_SIZE - 1);
          table_index = extract_level_index virtual_addr level
      in if table_index \<ge> ENTRIES_PER_TABLE then Some (NOT 0)
         else case load m current_table table_index of
                None \<Rightarrow> None
              | Some table_entry \<Rightarrow>
                  if table_entry AND VALID_FLAG = 0 then Some (NOT 0)
                  else if level = 0 then Some (ENTRY_TO_PHYS_ADDR table_entry OR page_offset)
                  else translate_loop level (ENTRY_TO_PHYS_ADDR table_entry) virtual_addr m)"

text \<open>
  \<open>translate\<close> has no assignment to \<open>ptbr\<close> or to memory in its body; the state it
  leaves is returned beside the address so that this can be stated.
\<close>

definition translate :: "word64 \<Rightarrow> state \<Rightarrow> (word64 \<times> state) option" where
  "translate virtual_addr s =
     (if ptbr s = 0 then Some (NOT 0, s)
      else case translate_loop LEVELS (ptbr s) virtual_addr (mem s) of
             None \<Rightarrow> None
           | Some pa \<Rightarrow> Some (pa, s))"

section \<open>\<open>page_allocate\<close> (mlpt.c lines 86-128)\<close>

text \<open>
  The loop \<open>for (level = LEVELS - 1; level > 0; level -= 1)\<close> followed by the block
  for the final page: the first argument is \<open>level\<close>, and \<open>0\<close> is the code after
  the loop. Every \<open>return\<close> ends the call with the memory as it is then. The loop
  body ends by reading \<open>current_table[table_index]\<close> again (line 116), whether or
  not the entry was just written.
\<close>

fun allocate_walk ::
  "nat \<Rightarrow> word64 \<Rightarrow> word64 \<Rightarrow> word64 option list \<Rightarrow> memory \<Rightarrow> memory option" where
  "allocate_walk 0 current_table virtual_addr answers m =
     (let table_index = extract_level_index virtual_addr 0
      in case load m current_table table_index of
           None \<Rightarrow> None
         | Some table_entry \<Rightarrow>
             if table_entry AND VALID_FLAG = 0 then
               (case allocate_aligned_page answers m of
                  (None, rest, m') \<Rightarrow> Some m'
                | (Some new_page, rest, m') \<Rightarrow>
                    store m' current_table table_index ((new_page AND PAGE_MASK) OR VALID_FLAG))
             else Some m)"
| "allocate_walk (Suc l) current_table virtual_addr answers m =
     (let table_index = extract_level_index virtual_addr (Suc l)
      in case load m current_table table_index of
           None \<Rightarrow> None
         | Some table_entry \<Rightarrow>
             if table_entry AND VALID_FLAG = 0 then
               (case allocate_aligned_page answers m of
                  (None, rest, m') \<Rightarrow> Some m'
                | (Some new_table, rest, m') \<Rightarrow>
                    (case store m' current_table table_index
                            ((new_table AND PAGE_MASK) OR VALID_FLAG) of
                       None \<Rightarrow> None
                     | Some m'' \<Rightarrow>
                         (case load m'' current_table table_index of
                            None \<Rightarrow> None
                          | Some e \<Rightarrow>
                              allocate_walk l (ENTRY_TO_PHYS_ADDR e) virtual_addr rest m'')))
             else
               (case load m current_table table_index of
                  None \<Rightarrow> None
                | Some e \<Rightarrow> allocate_walk l (ENTRY_TO_PHYS_ADDR e) virtual_addr answers m))"

text \<open>
  Everything of \<open>page_allocate\<close> after its first statement, with the outcome of the
  bounds check as an argument: the early \<open>return\<close>, the creation of the root table,
  and the walk.
\<close>

definition page_allocate_checked ::
  "bool \<Rightarrow> word64 option list \<Rightarrow> word64 \<Rightarrow> state \<Rightarrow> state option" where
  "page_allocate_checked address_ok answers virtual_addr s =
     (if \<not> address_ok then Some s
      else if ptbr s = 0 then
        (case allocate_aligned_page answers (mem s) of
           (None, rest, m') \<Rightarrow> Some (s\<lparr>mem := m'\<rparr>)
         | (Some root_table, rest, m') \<Rightarrow>
             (case allocate_walk (LEVELS - 1) root_table virtual_addr rest m' of
                None \<Rightarrow> None
              | Some m'' \<Rightarrow> Some \<lparr>ptbr = root_table, mem = m''\<rparr>))
      else
        (case allocate_walk (LEVELS - 1) (ptbr s) virtual_addr answers (mem s) of
           None \<Rightarrow> None
         | Some m'' \<Rightarrow> Some (s\<lparr>mem := m''\<rparr>)))"

definition page_allocate :: "word64 option list \<Rightarrow> word64 \<Rightarrow> state \<Rightarrow> state option" where
  "page_allocate answers virtual_addr s =
     page_allocate_checked (is_address_valid virtual_addr) answers virtual_addr s"

section \<open>\<open>page_deallocate\<close> (mlpt.c lines 133-182)\<close>

datatype path = No_Mapping | Path "word64 list" "word64 list"

text \<open>
  The first loop (lines 144-157) fills the arrays \<open>tables\<close> and \<open>indices\<close>, both
  indexed by level; the first argument is \<open>level + 1\<close>. \<open>No_Mapping\<close> is the
  \<open>return 0\<close> inside the loop. The entry is read twice in the source (lines 148 and
  154) with no write between the two reads; \<open>e\<close> is the value of both.
\<close>

fun record_path ::
  "nat \<Rightarrow> word64 \<Rightarrow> word64 \<Rightarrow> memory \<Rightarrow> word64 list \<Rightarrow> word64 list \<Rightarrow> path option" where
  "record_path 0 current_table virtual_addr m tables indices = Some (Path tables indices)"
| "record_path (Suc level) current_table virtual_addr m tables indices =
     (let tables' = tables[level := current_table];
          indices' = indices[level := extract_level_index virtual_addr level]
      in case load m current_table (indices' ! level) of
           None \<Rightarrow> None
         | Some e \<Rightarrow>
             if e AND VALID_FLAG = 0 then Some No_Mapping
             else if level > 0
               then record_path level (ENTRY_TO_PHYS_ADDR e) virtual_addr m tables' indices'
               else record_path level current_table virtual_addr m tables' indices')"

text \<open>
  The scan \<open>for (i = 0; i < ENTRIES_PER_TABLE; i += 1)\<close> of lines 166-171, started at
  \<open>i\<close>; the result is the final value of \<open>table_empty\<close>.
\<close>

function scan_table :: "word64 \<Rightarrow> word64 \<Rightarrow> memory \<Rightarrow> bool option" where
  "scan_table tbl i m =
     (if i < ENTRIES_PER_TABLE then
        (case load m tbl i of
           None \<Rightarrow> None
         | Some e \<Rightarrow> if e AND VALID_FLAG \<noteq> 0 then Some False else scan_table tbl (i + 1) m)
      else Some True)"
  by pat_completeness auto
termination
proof (relation "measure (\<lambda>(tbl, i, m). unat ENTRIES_PER_TABLE - unat i)")
  show "wf (measure (\<lambda>(tbl, i, m). unat ENTRIES_PER_TABLE - unat i))"
    by simp
next
  fix tbl :: word64 and i :: word64 and m :: memory and x2 :: word64
  assume lt: "i < ENTRIES_PER_TABLE"
  then have "unat i < unat ENTRIES_PER_TABLE"
    by (simp add: word_less_nat_alt)
  moreover have "unat ENTRIES_PER_TABLE = 128"
    by (simp add: ENTRIES_PER_TABLE_def PAGE_SIZE_def POBITS_def)
  ultimately have "unat (i + 1) = unat i + 1"
    by (simp add: unat_word_ariths)
  with lt show "((tbl, i + 1, m), (tbl, i, m))
      \<in> measure (\<lambda>(tbl, i, m). unat ENTRIES_PER_TABLE - unat i)"
    by (simp add: word_less_nat_alt)
qed

text \<open>
  The clean-up loop \<open>for (level = 1; level < LEVELS; level += 1)\<close> of lines 163-179.
\<close>

function cleanup :: "nat \<Rightarrow> word64 list \<Rightarrow> word64 list \<Rightarrow> memory \<Rightarrow> memory option" where
  "cleanup level tables indices m =
     (if level < LEVELS then
        (case scan_table (tables ! (level - 1)) 0 m of
           None \<Rightarrow> None
         | Some table_empty \<Rightarrow>
             if table_empty then
               (case free m (tables ! (level - 1)) of
                  None \<Rightarrow> None
                | Some m' \<Rightarrow>
                    (case store m' (tables ! level) (indices ! level) 0 of
                       None \<Rightarrow> None
                     | Some m'' \<Rightarrow> cleanup (level + 1) tables indices m''))
             else Some m)
      else Some m)"
  by pat_completeness auto
termination
  by (relation "measure (\<lambda>(level, tables, indices, m). LEVELS - level)") auto

text \<open>
  The arrays \<open>tables\<close> and \<open>indices\<close> are declared without an initial value; every
  cell is written by the first loop before it is read, and they start here as zeros.
  The C result \<open>1\<close> is \<open>True\<close> and \<open>0\<close> is \<open>False\<close>.
\<close>

definition page_deallocate :: "word64 \<Rightarrow> state \<Rightarrow> (bool \<times> state) option" where
  "page_deallocate virtual_addr s =
     (if ptbr s = 0 then Some (False, s)
      else case record_path LEVELS (ptbr s) virtual_addr (mem s)
                  (replicate LEVELS 0) (replicate LEVELS 0) of
             None \<Rightarrow> None
           | Some No_Mapping \<Rightarrow> Some (False, s)
           | Some (Path tables indices) \<Rightarrow>
               (case store (mem s) (tables ! 0) (indices ! 0) 0 of
                  None \<Rightarrow> None
                | Some m1 \<Rightarrow>
                    (case cleanup 1 tables indices m1 of
                       None \<Rightarrow> None
                     | Some m2 \<Rightarrow> Some (True, s\<lparr>mem := m2\<rparr>))))"

section \<open>The allocator's contract, and the states the program can reach\<close>

text \<open>
  What \<open>posix_memalign\<close> promises of a block it returns: the pointer is not null, it is
  a multiple of \<open>PAGE_SIZE\<close>, and the block ends inside the address space (the
  address one past its end is a valid pointer in C, so it does not wrap around).
\<close>

definition usable_block :: "word64 \<Rightarrow> bool" where
  "usable_block p \<longleftrightarrow>
     p \<noteq> 0 \<and> p AND (PAGE_SIZE - 1) = 0 \<and> unat p + unat PAGE_SIZE < 2 ^ 64"

fun blocks_of :: "word64 option list \<Rightarrow> word64 list" where
  "blocks_of [] = []"
| "blocks_of (None # rest) = blocks_of rest"
| "blocks_of (Some p # rest) = p # blocks_of rest"

text \<open>
  The answers one call of \<open>page_allocate\<close> may receive: blocks that are usable, that
  are not live when the call starts, and that differ from each other (the call frees
  nothing, so a block it was given stays live until it returns).
\<close>

definition fresh_answers :: "memory \<Rightarrow> word64 option list \<Rightarrow> bool" where
  "fresh_answers m answers \<longleftrightarrow>
     distinct (blocks_of answers) \<and>
     (\<forall>p \<in> set (blocks_of answers). usable_block p \<and> m p = None)"

text \<open>
  No request of the call is refused: one call asks for at most \<open>LEVELS + 1\<close> blocks
  (the root, \<open>LEVELS - 1\<close> further tables and the data page).
\<close>

definition all_granted :: "word64 option list \<Rightarrow> bool" where
  "all_granted answers \<longleftrightarrow>
     LEVELS + 1 \<le> length answers \<and> None \<notin> set (take (LEVELS + 1) answers)"

inductive reachable :: "state \<Rightarrow> bool" where
  start: "reachable initial_state"
| allocate: "reachable s \<Longrightarrow> fresh_answers (mem s) answers \<Longrightarrow>
     page_allocate answers virtual_addr s = Some s' \<Longrightarrow> reachable s'"
| deallocate: "reachable s \<Longrightarrow> page_deallocate virtual_addr s = Some (r, s') \<Longrightarrow>
     reachable s'"

text \<open>The states reached when no call of \<open>page_allocate\<close> is refused a block.\<close>

inductive reachable_granted :: "state \<Rightarrow> bool" where
  start_granted: "reachable_granted initial_state"
| allocate_granted: "reachable_granted s \<Longrightarrow> fresh_answers (mem s) answers \<Longrightarrow>
     all_granted answers \<Longrightarrow> page_allocate answers virtual_addr s = Some s' \<Longrightarrow>
     reachable_granted s'"
| deallocate_granted: "reachable_granted s \<Longrightarrow>
     page_deallocate virtual_addr s = Some (r, s') \<Longrightarrow> reachable_granted s'"

section \<open>No table reachable from the root is empty\<close>

definition has_valid_entry :: "memory \<Rightarrow> word64 \<Rightarrow> bool" where
  "has_valid_entry m tbl =
     (case m tbl of None \<Rightarrow> False | Some t \<Rightarrow> (\<exists>e \<in> set t. e AND VALID_FLAG \<noteq> 0))"

text \<open>
  \<open>tbl\<close> is a table whose entries are selected by the index of level \<open>level\<close>. For
  \<open>level > 0\<close> its entries are intermediate: each valid one names a child table,
  which must be live, hold a valid entry, and satisfy the same one level down.
\<close>

fun no_empty_table_below :: "memory \<Rightarrow> nat \<Rightarrow> word64 \<Rightarrow> bool" where
  "no_empty_table_below m 0 tbl = True"
| "no_empty_table_below m (Suc l) tbl =
     (case m tbl of
        None \<Rightarrow> False
      | Some t \<Rightarrow>
          (\<forall>e \<in> set t. e AND VALID_FLAG \<noteq> 0 \<longrightarrow>
             has_valid_entry m (ENTRY_TO_PHYS_ADDR e) \<and>
             no_empty_table_below m l (ENTRY_TO_PHYS_ADDR e)))"

definition no_empty_table :: "state \<Rightarrow> bool" where
  "no_empty_table s \<longleftrightarrow>
     ptbr s = 0 \<or> no_empty_table_below (mem s) (LEVELS - 1) (ptbr s)"

section \<open>The shape of memory that every operation keeps\<close>

text \<open>Entry \<open>i\<close> of the live block \<open>a\<close> is valid and names the block \<open>c\<close>.\<close>

definition points :: "memory \<Rightarrow> word64 \<Rightarrow> nat \<Rightarrow> word64 \<Rightarrow> bool" where
  "points m a i c \<longleftrightarrow>
     (\<exists>t. m a = Some t \<and> i < length t \<and> t ! i AND VALID_FLAG \<noteq> 0 \<and>
          ENTRY_TO_PHYS_ADDR (t ! i) = c)"

text \<open>
  Every live block has the size of a table and a usable address; a valid entry names
  a live block; no block is named by two valid entries.
\<close>

definition wf_mem :: "memory \<Rightarrow> bool" where
  "wf_mem m \<longleftrightarrow>
     (\<forall>a t. m a = Some t \<longrightarrow> length t = unat ENTRIES_PER_TABLE \<and> usable_block a) \<and>
     (\<forall>a i c. points m a i c \<longrightarrow> m c \<noteq> None) \<and>
     (\<forall>a i a' i' c. points m a i c \<longrightarrow> points m a' i' c \<longrightarrow> a = a' \<and> i = i')"

text \<open>The root, once set, is a live block that no valid entry names.\<close>

definition wf_state :: "state \<Rightarrow> bool" where
  "wf_state s \<longleftrightarrow>
     wf_mem (mem s) \<and>
     (ptbr s \<noteq> 0 \<longrightarrow> mem s (ptbr s) \<noteq> None \<and> (\<forall>a i. \<not> points (mem s) a i (ptbr s)))"

text \<open>
  The entries on the path of \<open>v\<close> are valid at every level, from the table \<open>tbl\<close>
  of level \<open>l\<close> down to level \<open>0\<close>.
\<close>

fun mapped_from :: "memory \<Rightarrow> nat \<Rightarrow> word64 \<Rightarrow> word64 \<Rightarrow> bool" where
  "mapped_from m 0 tbl v = (\<exists>c. points m tbl (unat (extract_level_index v 0)) c)"
| "mapped_from m (Suc l) tbl v =
     (\<exists>c. points m tbl (unat (extract_level_index v (Suc l))) c \<and> mapped_from m l c v)"

text \<open>The block named by the entry of \<open>tbl\<close> that \<open>v\<close> selects at a level.\<close>

definition child :: "memory \<Rightarrow> word64 \<Rightarrow> word64 \<Rightarrow> nat \<Rightarrow> word64" where
  "child m tbl v l =
     (case m tbl of
        None \<Rightarrow> 0
      | Some t \<Rightarrow> ENTRY_TO_PHYS_ADDR (t ! unat (extract_level_index v l)))"

text \<open>The entries (table and index) on the path of \<open>v\<close>, from a table downwards.\<close>

fun path_entries :: "memory \<Rightarrow> nat \<Rightarrow> word64 \<Rightarrow> word64 \<Rightarrow> (word64 \<times> nat) set" where
  "path_entries m 0 tbl v = {(tbl, unat (extract_level_index v 0))}"
| "path_entries m (Suc l) tbl v =
     insert (tbl, unat (extract_level_index v (Suc l)))
       (path_entries m l (child m tbl v (Suc l)) v)"

text \<open>
  The block of statements that \<open>page_allocate\<close> runs at every level (lines 108-114
  and 121-127): if the entry is invalid, ask for a block and install it. The result
  says whether the call goes on (\<open>False\<close> is the \<open>return\<close> on \<open>NULL\<close>).
\<close>

definition ensure_entry ::
  "word64 \<Rightarrow> word64 \<Rightarrow> word64 option list \<Rightarrow> memory \<Rightarrow>
     (bool \<times> word64 option list \<times> memory) option" where
  "ensure_entry tbl i answers m =
     (case load m tbl i of
        None \<Rightarrow> None
      | Some e \<Rightarrow>
          if e AND VALID_FLAG = 0 then
            (case allocate_aligned_page answers m of
               (None, rest, m') \<Rightarrow> Some (False, rest, m')
             | (Some p, rest, m') \<Rightarrow>
                 (case store m' tbl i ((p AND PAGE_MASK) OR VALID_FLAG) of
                    None \<Rightarrow> None
                  | Some m'' \<Rightarrow> Some (True, rest, m'')))
          else Some (True, answers, m))"

text \<open>No entry of the table but entry \<open>i\<close> is valid.\<close>

definition sole_entry :: "table \<Rightarrow> nat \<Rightarrow> bool" where
  "sole_entry t i \<longleftrightarrow> (\<forall>j < length t. j \<noteq> i \<longrightarrow> t ! j AND VALID_FLAG = 0)"

text \<open>
  On the relation \<open>P a i c\<close>, "entry \<open>i\<close> of \<open>a\<close> is valid and names \<open>c\<close>":
  every table named from the root \<open>r\<close>, and every table named from one of those,
  has a valid entry, the table \<open>q\<close> excepted.
\<close>

definition full_except ::
  "(word64 \<Rightarrow> nat \<Rightarrow> word64 \<Rightarrow> bool) \<Rightarrow> word64 \<Rightarrow> word64 \<Rightarrow> bool" where
  "full_except P r q \<longleftrightarrow>
     (\<forall>i c. P r i c \<longrightarrow>
        (c \<noteq> q \<longrightarrow> (\<exists>j x. P c j x)) \<and>
        (\<forall>j x. P c j x \<longrightarrow> x \<noteq> q \<longrightarrow> (\<exists>k y. P x k y)))"

text \<open>
  How memory grows in \<open>page_allocate\<close>: live blocks stay live, valid entries stay as
  they are, and a valid entry that is new names a block that was not live before.
\<close>

definition extends :: "memory \<Rightarrow> memory \<Rightarrow> bool" where
  "extends m m' \<longleftrightarrow>
     (\<forall>a. m a \<noteq> None \<longrightarrow> m' a \<noteq> None) \<and>
     (\<forall>a i c. points m a i c \<longrightarrow> points m' a i c) \<and>
     (\<forall>a i c. points m' a i c \<longrightarrow> points m a i c \<or> m c = None)"

section \<open>Three states of a small run\<close>

text \<open>
  \<open>tables_only\<close> is the state after \<open>page_allocate(0)\<close> from the initial state
  when the allocator grants three blocks (at 4096, 8192 and 12288) and refuses the
  fourth: the root and two tables are linked, and the last table is empty.
  \<open>one_page\<close> is the state after a further \<open>page_allocate(0)\<close> that is granted
  the block at 16384 for the data page. \<open>empty_root\<close> is the state after
  \<open>page_deallocate(0)\<close> in \<open>one_page\<close>: the two tables below the root are freed,
  the root is a live table without a valid entry, and the data page is still live.
\<close>

definition tables_only :: state where
  "tables_only =
     \<lparr>ptbr = 4096,
      mem = [4096 \<mapsto> (replicate 128 0)[0 := 8193],
             8192 \<mapsto> (replicate 128 0)[0 := 12289],
             12288 \<mapsto> replicate 128 0]\<rparr>"

definition one_page :: state where
  "one_page =
     \<lparr>ptbr = 4096,
      mem = [4096 \<mapsto> (replicate 128 0)[0 := 8193],
             8192 \<mapsto> (replicate 128 0)[0 := 12289],
             12288 \<mapsto> (replicate 128 0)[0 := 16385],
             16384 \<mapsto> replicate 128 0]\<rparr>"

definition empty_root :: state where
  "empty_root =
     \<lparr>ptbr = 4096,
      mem = [4096 \<mapsto> replicate 128 0, 16384 \<mapsto> replicate 128 0]\<rparr>"

text \<open>The equations of the two loops with a counter are unfolded by hand, one turn at a time.\<close>

declare scan_table.simps [simp del]
declare cleanup.simps [simp del]

section \<open>Address decomposition: every index fits a table\<close>

lemma ENTRIES_PER_TABLE_value: "ENTRIES_PER_TABLE = 128"
  by (simp add: ENTRIES_PER_TABLE_def PAGE_SIZE_def POBITS_def)

lemma LEVEL_INDEX_MASK_value: "LEVEL_INDEX_MASK = 127"
  by (simp add: LEVEL_INDEX_MASK_def BITS_PER_LEVEL_def POBITS_def)

lemma extract_level_index_less: "extract_level_index v level < ENTRIES_PER_TABLE"
proof -
  have "drop_bit (POBITS + level * BITS_PER_LEVEL) v AND (127 :: word64) \<le> 127"
    by (rule word_and_le1)
  moreover have "(127 :: word64) < 128"
    by simp
  ultimately have "drop_bit (POBITS + level * BITS_PER_LEVEL) v AND (127 :: word64) < 128"
    by (rule le_less_trans)
  then show ?thesis
    by (simp add: extract_level_index_def ENTRIES_PER_TABLE_value LEVEL_INDEX_MASK_value)
qed

lemma is_address_valid_loop_True: "is_address_valid_loop n v"
  by (induction n) (simp_all add: extract_level_index_less not_le)

section \<open>Words: masks, indices and the installed entry\<close>

lemma PAGE_SIZE_value: "PAGE_SIZE = 1024"
  by (simp add: PAGE_SIZE_def POBITS_def)

lemma PAGE_MASK_value: "PAGE_MASK = NOT 1023"
  by (simp add: PAGE_MASK_def PAGE_SIZE_value)

lemma new_entry_valid: "((p AND PAGE_MASK) OR VALID_FLAG) AND VALID_FLAG \<noteq> 0"
proof -
  have "((p AND PAGE_MASK) OR 1) AND (1 :: word64) = 1"
    by (simp add: bit.conj_disj_distrib2)
  then show ?thesis by (simp add: VALID_FLAG_def)
qed

lemma aligned_masked: 
  assumes "p AND (PAGE_SIZE - 1) = 0" shows "p AND PAGE_MASK = (p :: word64)"
proof -
  have "p = (p AND (PAGE_SIZE - 1)) OR (p AND NOT (PAGE_SIZE - 1))"
    by (simp flip: bit.conj_disj_distrib)
  with assms show ?thesis by (simp add: PAGE_MASK_def)
qed

lemma new_entry_addr: "ENTRY_TO_PHYS_ADDR ((p AND PAGE_MASK) OR VALID_FLAG) = p AND PAGE_MASK"
proof -
  have "(1 :: word64) AND NOT 1023 = 0" by simp
  then show ?thesis
    by (simp add: ENTRY_TO_PHYS_ADDR_def VALID_FLAG_def PAGE_MASK_value bit.conj_disj_distrib2 and.assoc)
qed

lemma unat_ENTRIES_PER_TABLE: "unat ENTRIES_PER_TABLE = 128"
  by (simp add: ENTRIES_PER_TABLE_value)

lemma index_in_table: "unat (extract_level_index v l) < 128"
proof -
  have "extract_level_index v l < 128"
    using extract_level_index_less [of v l] by (simp add: ENTRIES_PER_TABLE_value)
  then show ?thesis by (simp add: word_less_nat_alt)
qed

lemma translation_low_bits:
  "(ENTRY_TO_PHYS_ADDR e OR (v AND (PAGE_SIZE - 1))) AND (PAGE_SIZE - 1) = v AND (PAGE_SIZE - 1)"
proof -
  have "(e AND NOT 1023) AND (1023 :: word64) = 0"
    by (simp add: and.assoc)
  then show ?thesis
    by (simp add: ENTRY_TO_PHYS_ADDR_def PAGE_MASK_value PAGE_SIZE_value bit.conj_disj_distrib2 and.assoc)
qed

lemma usable_block_not_top:
  assumes "usable_block p" shows "p OR (v AND (PAGE_SIZE - 1)) \<noteq> NOT 0"
proof
  assume eq: "p OR (v AND (PAGE_SIZE - 1)) = NOT 0"
  have al: "p AND PAGE_MASK = p"
    using assms by (simp add: usable_block_def aligned_masked)
  have "(p OR (v AND (PAGE_SIZE - 1))) AND PAGE_MASK = p AND PAGE_MASK"
  proof -
    have "(v AND 1023) AND NOT (1023 :: word64) = 0"
      by (simp add: and.assoc)
    then show ?thesis
      by (simp add: PAGE_MASK_value PAGE_SIZE_value bit.conj_disj_distrib2)
  qed
  with eq al have "p = PAGE_MASK" by simp
  then have "unat p + unat PAGE_SIZE = 2 ^ 64"
    by (simp add: PAGE_MASK_value PAGE_SIZE_value unsigned_minus_1_eq_mask mask_eq_exp_minus_1)
  with assms show False by (simp add: usable_block_def)
qed

section \<open>Valid entries under the updates of memory\<close>

lemma points_new_block:
  "m p = None \<Longrightarrow> points (m(p \<mapsto> replicate n 0)) a i c \<longleftrightarrow> points m a i c"
  by (auto simp: points_def)

lemma points_update:
  "m b = Some t \<Longrightarrow> j < length t \<Longrightarrow>
   points (m(b \<mapsto> t[j := x])) a i c \<longleftrightarrow>
     (if a = b \<and> i = j then x AND VALID_FLAG \<noteq> 0 \<and> ENTRY_TO_PHYS_ADDR x = c
      else points m a i c)"
  by (auto simp: points_def nth_list_update)

lemma points_release:
  "points (m(p := None)) a i c \<longleftrightarrow> a \<noteq> p \<and> points m a i c"
  by (auto simp: points_def)

lemma points_live: "points m a i c \<Longrightarrow> m a \<noteq> None"
  by (auto simp: points_def)

lemma wf_mem_length: "wf_mem m \<Longrightarrow> m a = Some t \<Longrightarrow> length t = 128"
  by (simp add: wf_mem_def unat_ENTRIES_PER_TABLE)

lemma wf_mem_usable: "wf_mem m \<Longrightarrow> m a = Some t \<Longrightarrow> usable_block a"
  by (simp add: wf_mem_def)

lemma wf_mem_target: "wf_mem m \<Longrightarrow> points m a i c \<Longrightarrow> m c \<noteq> None"
  unfolding wf_mem_def by blast

lemma wf_mem_inj: "wf_mem m \<Longrightarrow> points m a i c \<Longrightarrow> points m a' i' c \<Longrightarrow> a = a' \<and> i = i'"
  unfolding wf_mem_def by blast

lemma load_table:
  "wf_mem m \<Longrightarrow> m a = Some t \<Longrightarrow> load m a (extract_level_index v l) = Some (t ! unat (extract_level_index v l))"
  by (simp add: load_def wf_mem_length index_in_table)

lemma store_table:
  "wf_mem m \<Longrightarrow> m a = Some t \<Longrightarrow>
   store m a (extract_level_index v l) x = Some (m(a \<mapsto> t[unat (extract_level_index v l) := x]))"
  by (simp add: store_def wf_mem_length index_in_table)

lemma points_iff_entry:
  "wf_mem m \<Longrightarrow> m a = Some t \<Longrightarrow>
   points m a (unat (extract_level_index v l)) c \<longleftrightarrow>
     t ! unat (extract_level_index v l) AND VALID_FLAG \<noteq> 0 \<and>
     ENTRY_TO_PHYS_ADDR (t ! unat (extract_level_index v l)) = c"
  by (simp add: points_def wf_mem_length index_in_table)

text \<open>Installing a fresh block in an invalid entry.\<close>

lemma install_points:
  assumes "m a = Some t" "j < length t" "m p = None" "usable_block p"
  shows "points (m(p \<mapsto> replicate n 0, a \<mapsto> t[j := (p AND PAGE_MASK) OR VALID_FLAG])) b i c \<longleftrightarrow>
     (if b = a \<and> i = j then c = p else points m b i c)"
proof -
  define x where "x = (p AND PAGE_MASK) OR VALID_FLAG"
  have ne: "a \<noteq> p" using assms by auto
  have al: "p AND PAGE_MASK = p"
    using assms(4) by (simp add: usable_block_def aligned_masked)
  have x1: "x AND VALID_FLAG \<noteq> 0"
    unfolding x_def by (rule new_entry_valid)
  have x2: "ENTRY_TO_PHYS_ADDR x = p"
    unfolding x_def by (rule trans [OF new_entry_addr al])
  have "(m(p \<mapsto> replicate n 0)) a = Some t" using ne assms(1) by simp
  from points_update [of "m(p \<mapsto> replicate n 0)" a t j, OF this assms(2)]
  have "points (m(p \<mapsto> replicate n 0, a \<mapsto> t[j := x])) b i c \<longleftrightarrow>
     (if b = a \<and> i = j then c = p else points m b i c)"
    using assms(3) x1 x2 by (auto simp: points_new_block)
  then show ?thesis unfolding x_def .
qed

lemma install_wf:
  assumes wf: "wf_mem m" and a: "m a = Some t" and j: "j < length t"
    and inv: "t ! j AND VALID_FLAG = 0" and p: "m p = None" and u: "usable_block p"
  shows "wf_mem (m(p \<mapsto> replicate (unat ENTRIES_PER_TABLE) 0, a \<mapsto> t[j := (p AND PAGE_MASK) OR VALID_FLAG]))"
    (is "wf_mem ?m'")
proof -
  note pts = install_points [OF a j p u]
  have old: "\<not> points m a j c" for c
    using a j inv by (simp add: points_def)
  have notgt: "\<not> points m b i p" for b i
    using wf_mem_target [OF wf] p by blast
  have 1: "\<forall>b t'. ?m' b = Some t' \<longrightarrow> length t' = unat ENTRIES_PER_TABLE \<and> usable_block b"
    using wf a u by (auto simp: wf_mem_def)
  have 2: "\<forall>b i c. points ?m' b i c \<longrightarrow> ?m' c \<noteq> None"
    using wf_mem_target [OF wf] by (auto simp: pts split: if_splits)
  have 3: "\<forall>b i b' i' c. points ?m' b i c \<longrightarrow> points ?m' b' i' c \<longrightarrow> b = b' \<and> i = i'"
    using wf_mem_inj [OF wf] notgt by (auto simp: pts split: if_splits)
  show ?thesis unfolding wf_mem_def using 1 2 3 by blast
qed

lemma install_extends:
  assumes wf: "wf_mem m" and a: "m a = Some t" and j: "j < length t"
    and inv: "t ! j AND VALID_FLAG = 0" and p: "m p = None" and u: "usable_block p"
  shows "extends m (m(p \<mapsto> replicate n 0, a \<mapsto> t[j := (p AND PAGE_MASK) OR VALID_FLAG]))"
proof -
  note pts = install_points [OF a j p u]
  have old: "\<not> points m a j c" for c
    using a j inv by (simp add: points_def)
  show ?thesis
    unfolding extends_def using old p by (auto simp: pts)
qed

lemma extends_refl: "extends m m"
  by (simp add: extends_def)

lemma extends_trans: "extends m m1 \<Longrightarrow> extends m1 m2 \<Longrightarrow> extends m m2"
  unfolding extends_def by (metis option.exhaust)

section \<open>The walk of \<open>page_allocate\<close>\<close>

lemma allocate_walk_0:
  "allocate_walk 0 tbl v answers m =
     (case ensure_entry tbl (extract_level_index v 0) answers m of
        None \<Rightarrow> None
      | Some (ok, rest, m') \<Rightarrow> Some m')"
  by (auto simp: ensure_entry_def Let_def split: option.splits prod.splits)

lemma allocate_walk_Suc:
  "allocate_walk (Suc l) tbl v answers m =
     (case ensure_entry tbl (extract_level_index v (Suc l)) answers m of
        None \<Rightarrow> None
      | Some (ok, rest, m') \<Rightarrow>
          if ok then
            (case load m' tbl (extract_level_index v (Suc l)) of
               None \<Rightarrow> None
             | Some e \<Rightarrow> allocate_walk l (ENTRY_TO_PHYS_ADDR e) v rest m')
          else Some m')"
  by (auto simp: ensure_entry_def Let_def split: option.splits prod.splits)

lemma fresh_answers_Cons:
  assumes "fresh_answers m (Some p # rest)"
  shows "usable_block p" "m p = None"
    "m' p \<noteq> None \<Longrightarrow> \<forall>q. q \<noteq> p \<longrightarrow> m q = None \<longrightarrow> m' q = None \<Longrightarrow> fresh_answers m' rest"
  using assms by (auto simp: fresh_answers_def)

text \<open>The three outcomes of the block of statements.\<close>

lemma ensure_entry_cases:
  fixes v :: word64 and l :: nat
  assumes wf: "wf_mem m" and t: "m tbl = Some t" and fr: "fresh_answers m answers"
  defines "i \<equiv> unat (extract_level_index v l)"
  shows "(t ! i AND VALID_FLAG \<noteq> 0 \<and>
            ensure_entry tbl (extract_level_index v l) answers m = Some (True, answers, m))
       \<or> (t ! i AND VALID_FLAG = 0 \<and> (answers = [] \<or> (\<exists>rest. answers = None # rest)) \<and>
            (\<exists>rest. ensure_entry tbl (extract_level_index v l) answers m = Some (False, rest, m)))
       \<or> (t ! i AND VALID_FLAG = 0 \<and>
            (\<exists>p rest. answers = Some p # rest \<and> m p = None \<and> usable_block p \<and>
               ensure_entry tbl (extract_level_index v l) answers m =
                 Some (True, rest,
                   m(p \<mapsto> replicate (unat ENTRIES_PER_TABLE) 0,
                     tbl \<mapsto> t[i := (p AND PAGE_MASK) OR VALID_FLAG]))))"
proof (cases "t ! i AND VALID_FLAG = 0")
  case False
  then show ?thesis
    using load_table [OF wf t, of v l] by (simp add: ensure_entry_def i_def)
next
  case inv: True
  show ?thesis
  proof (cases answers)
    case Nil
    then show ?thesis
      using inv load_table [OF wf t, of v l]
      by (simp add: ensure_entry_def i_def allocate_aligned_page_def)
  next
    case (Cons x rest)
    show ?thesis
    proof (cases x)
      case None
      then show ?thesis
        using inv Cons load_table [OF wf t, of v l]
        by (simp add: ensure_entry_def i_def allocate_aligned_page_def)
    next
      case (Some p)
      have p: "m p = None" "usable_block p"
        using fr Cons Some by (auto simp: fresh_answers_def)
      then have ne: "tbl \<noteq> p" using t by auto
      let ?m1 = "m(p \<mapsto> replicate (unat ENTRIES_PER_TABLE) 0)"
      have "store ?m1 tbl (extract_level_index v l) x' =
              Some (?m1(tbl \<mapsto> t[i := x']))" for x'
        using ne t wf_mem_length [OF wf t] index_in_table [of v l]
        by (simp add: store_def i_def)
      then show ?thesis
        using inv Cons Some p load_table [OF wf t, of v l]
        by (simp add: ensure_entry_def i_def allocate_aligned_page_def)
    qed
  qed
qed

lemma points_child: "points m tbl (unat (extract_level_index v l)) c \<Longrightarrow> child m tbl v l = c"
  by (auto simp: points_def child_def)

lemma load_child:
  "wf_mem m \<Longrightarrow> m tbl \<noteq> None \<Longrightarrow>
   \<exists>e. load m tbl (extract_level_index v l) = Some e \<and> ENTRY_TO_PHYS_ADDR e = child m tbl v l"
  by (auto simp: load_table child_def)

lemma extends_live: "extends m m' \<Longrightarrow> m a \<noteq> None \<Longrightarrow> m' a \<noteq> None"
  unfolding extends_def by blast

lemma extends_points: "extends m m' \<Longrightarrow> points m a i c \<Longrightarrow> points m' a i c"
  unfolding extends_def by blast

lemma granted_Suc:
  "Suc n \<le> length answers \<and> None \<notin> set (take (Suc n) answers) \<Longrightarrow>
   n \<le> length answers \<and> None \<notin> set (take n answers)"
  using set_take_subset_set_take [of n "Suc n" answers] by auto

lemma granted_Cons:
  "Suc n \<le> length (x # rest) \<and> None \<notin> set (take (Suc n) (x # rest)) \<Longrightarrow>
   n \<le> length rest \<and> None \<notin> set (take n rest)"
  by simp

lemma allocate_walk_correct:
  assumes "wf_mem m" "m tbl \<noteq> None" "fresh_answers m answers"
  shows "\<exists>m'. allocate_walk l tbl v answers m = Some m' \<and> wf_mem m' \<and> extends m m'
     \<and> (Suc l \<le> length answers \<and> None \<notin> set (take (Suc l) answers) \<longrightarrow> mapped_from m' l tbl v)
     \<and> (\<forall>a i c. points m' a i c \<longrightarrow> points m a i c \<or> (a, i) \<in> path_entries m' l tbl v)"
  using assms
proof (induction l arbitrary: tbl answers m)
  case 0
  then obtain t where t: "m tbl = Some t" by auto
  let ?i = "unat (extract_level_index v 0)"
  note wf = \<open>wf_mem m\<close>
  from ensure_entry_cases [OF wf t \<open>fresh_answers m answers\<close>, of v 0]
  consider
    (valid) "t ! ?i AND VALID_FLAG \<noteq> 0"
      "ensure_entry tbl (extract_level_index v 0) answers m = Some (True, answers, m)"
  | (refused) rest' where "answers = [] \<or> (\<exists>rest. answers = None # rest)"
      "ensure_entry tbl (extract_level_index v 0) answers m = Some (False, rest', m)"
  | (installed) p rest where "t ! ?i AND VALID_FLAG = 0" "answers = Some p # rest" "m p = None" "usable_block p"
      "ensure_entry tbl (extract_level_index v 0) answers m =
         Some (True, rest, m(p \<mapsto> replicate (unat ENTRIES_PER_TABLE) 0,
                     tbl \<mapsto> t[?i := (p AND PAGE_MASK) OR VALID_FLAG]))"
    by blast
  then show ?case
  proof cases
    case valid
    then have "\<exists>c. points m tbl ?i c"
      by (simp add: points_iff_entry [OF wf t])
    then show ?thesis
      using valid wf by (simp add: allocate_walk_0 extends_refl del: allocate_walk.simps)
  next
    case refused
    from refused(1) have "\<not> (Suc 0 \<le> length answers \<and> None \<notin> set (take (Suc 0) answers))"
      by auto
    moreover have "allocate_walk 0 tbl v answers m = Some m"
      using refused(2) by (simp add: allocate_walk_0 del: allocate_walk.simps)
    ultimately show ?thesis
      using wf extends_refl [of m] by blast
  next
    case installed
    let ?m' = "m(p \<mapsto> replicate (unat ENTRIES_PER_TABLE) 0,
                     tbl \<mapsto> t[?i := (p AND PAGE_MASK) OR VALID_FLAG])"
    have len: "?i < length t"
      using wf_mem_length [OF wf t] index_in_table [of v 0] by simp
    note pts = install_points [OF t len installed(3,4)]
    have "wf_mem ?m'" by (rule install_wf [OF wf t len installed(1,3,4)])
    moreover have "extends m ?m'" by (rule install_extends [OF wf t len installed(1,3,4)])
    moreover have "points ?m' tbl ?i p" by (simp add: pts)
    then have "mapped_from ?m' 0 tbl v" by auto
    moreover have "\<forall>a i c. points ?m' a i c \<longrightarrow> points m a i c \<or> (a, i) \<in> path_entries ?m' 0 tbl v"
      by (auto simp: pts split: if_splits)
    ultimately show ?thesis
      using installed(5) by (simp add: allocate_walk_0 del: allocate_walk.simps)
  qed
next
  case (Suc l)
  then obtain t where t: "m tbl = Some t" by auto
  let ?i = "unat (extract_level_index v (Suc l))"
  note wf = \<open>wf_mem m\<close>
  from ensure_entry_cases [OF wf t \<open>fresh_answers m answers\<close>, of v "Suc l"]
  consider
    (valid) "t ! ?i AND VALID_FLAG \<noteq> 0"
      "ensure_entry tbl (extract_level_index v (Suc l)) answers m = Some (True, answers, m)"
  | (refused) rest' where "answers = [] \<or> (\<exists>rest. answers = None # rest)"
      "ensure_entry tbl (extract_level_index v (Suc l)) answers m = Some (False, rest', m)"
  | (installed) p rest where "t ! ?i AND VALID_FLAG = 0" "answers = Some p # rest" "m p = None" "usable_block p"
      "ensure_entry tbl (extract_level_index v (Suc l)) answers m =
         Some (True, rest, m(p \<mapsto> replicate (unat ENTRIES_PER_TABLE) 0,
                     tbl \<mapsto> t[?i := (p AND PAGE_MASK) OR VALID_FLAG]))"
    by blast
  then show ?case
  proof cases
    case valid
    let ?c = "child m tbl v (Suc l)"
    have pc: "points m tbl ?i ?c"
      using valid(1) t by (simp add: points_iff_entry [OF wf t] child_def)
    then have live: "m ?c \<noteq> None" by (rule wf_mem_target [OF wf])
    from Suc.IH [OF wf live \<open>fresh_answers m answers\<close>]
    obtain m' where m': "allocate_walk l ?c v answers m = Some m'" "wf_mem m'" "extends m m'"
      "Suc l \<le> length answers \<and> None \<notin> set (take (Suc l) answers) \<longrightarrow> mapped_from m' l ?c v"
      "\<forall>a i c. points m' a i c \<longrightarrow> points m a i c \<or> (a, i) \<in> path_entries m' l ?c v"
      by blast
    have pc': "points m' tbl ?i ?c" using m'(3) pc by (rule extends_points)
    then have ch: "child m' tbl v (Suc l) = ?c" by (rule points_child)
    obtain e where "load m tbl (extract_level_index v (Suc l)) = Some e"
        "ENTRY_TO_PHYS_ADDR e = ?c"
      using load_child [OF wf, of tbl v "Suc l"] t by auto
    then have "allocate_walk (Suc l) tbl v answers m = Some m'"
      using valid(2) m'(1)
      by (simp add: allocate_walk_Suc del: allocate_walk.simps)
    moreover have "Suc (Suc l) \<le> length answers \<and> None \<notin> set (take (Suc (Suc l)) answers)
        \<longrightarrow> mapped_from m' (Suc l) tbl v"
      using m'(4) pc' granted_Suc [of "Suc l" answers] by auto
    moreover have "\<forall>a i c. points m' a i c \<longrightarrow> points m a i c \<or> (a, i) \<in> path_entries m' (Suc l) tbl v"
      using m'(5) ch by auto
    ultimately show ?thesis using m'(2,3) by blast
  next
    case refused
    from refused(1) have "\<not> (Suc (Suc l) \<le> length answers \<and> None \<notin> set (take (Suc (Suc l)) answers))"
      by auto
    moreover have "allocate_walk (Suc l) tbl v answers m = Some m"
      using refused(2) by (simp add: allocate_walk_Suc del: allocate_walk.simps)
    ultimately show ?thesis
      using wf extends_refl [of m] by blast
  next
    case installed
    let ?m2 = "m(p \<mapsto> replicate (unat ENTRIES_PER_TABLE) 0,
                     tbl \<mapsto> t[?i := (p AND PAGE_MASK) OR VALID_FLAG])"
    have len: "?i < length t"
      using wf_mem_length [OF wf t] index_in_table [of v "Suc l"] by simp
    note pts = install_points [OF t len installed(3,4)]
    have wf2: "wf_mem ?m2" by (rule install_wf [OF wf t len installed(1,3,4)])
    have ext2: "extends m ?m2" by (rule install_extends [OF wf t len installed(1,3,4)])
    have p2: "points ?m2 tbl ?i p" by (simp add: pts)
    then have ch2: "child ?m2 tbl v (Suc l) = p" by (rule points_child)
    have live2: "?m2 p \<noteq> None" using wf_mem_target [OF wf2 p2] .
    have fr2: "fresh_answers ?m2 rest"
      using \<open>fresh_answers m answers\<close> installed(2) t by (auto simp: fresh_answers_def)
    from Suc.IH [OF wf2 live2 fr2]
    obtain m' where m': "allocate_walk l p v rest ?m2 = Some m'" "wf_mem m'" "extends ?m2 m'"
      "Suc l \<le> length rest \<and> None \<notin> set (take (Suc l) rest) \<longrightarrow> mapped_from m' l p v"
      "\<forall>a i c. points m' a i c \<longrightarrow> points ?m2 a i c \<or> (a, i) \<in> path_entries m' l p v"
      by blast
    have pc': "points m' tbl ?i p" using m'(3) p2 by (rule extends_points)
    then have ch: "child m' tbl v (Suc l) = p" by (rule points_child)
    have "?m2 tbl \<noteq> None" by simp
    from load_child [OF wf2 this, of v "Suc l"]
    obtain e where "load ?m2 tbl (extract_level_index v (Suc l)) = Some e"
        "ENTRY_TO_PHYS_ADDR e = child ?m2 tbl v (Suc l)"
      by blast
    then have "allocate_walk (Suc l) tbl v answers m = Some m'"
      using installed(5) m'(1) ch2
      by (simp add: allocate_walk_Suc del: allocate_walk.simps)
    moreover have "extends m m'" using ext2 m'(3) by (rule extends_trans)
    moreover have "Suc (Suc l) \<le> length answers \<and> None \<notin> set (take (Suc (Suc l)) answers)
        \<longrightarrow> mapped_from m' (Suc l) tbl v"
      using m'(4) pc' installed(2) by auto
    moreover have "\<forall>a i c. points m' a i c \<longrightarrow> points m a i c \<or> (a, i) \<in> path_entries m' (Suc l) tbl v"
    proof (intro allI impI)
      fix a i c assume "points m' a i c"
      with m'(5) have "points ?m2 a i c \<or> (a, i) \<in> path_entries m' l p v" by blast
      then show "points m a i c \<or> (a, i) \<in> path_entries m' (Suc l) tbl v"
        using ch by (auto simp: pts split: if_splits)
    qed
    ultimately show ?thesis using m'(2) by blast
  qed
qed

section \<open>The walk of \<open>translate\<close>\<close>

lemma index_not_out_of_range: "\<not> ENTRIES_PER_TABLE \<le> extract_level_index v l"
  using extract_level_index_less [of v l] by (simp add: not_le)

lemma points_load:
  assumes "points m tbl (unat i) c"
  shows "\<exists>e. load m tbl i = Some e \<and> e AND VALID_FLAG \<noteq> 0 \<and> ENTRY_TO_PHYS_ADDR e = c"
  using assms by (auto simp: points_def load_def)

lemma not_points_load:
  assumes "wf_mem m" "m tbl \<noteq> None" "\<forall>c. \<not> points m tbl (unat (extract_level_index v l)) c"
  shows "\<exists>e. load m tbl (extract_level_index v l) = Some e \<and> e AND VALID_FLAG = 0"
proof -
  from assms(2) obtain t where t: "m tbl = Some t" by auto
  with assms show ?thesis
    by (simp add: load_table points_iff_entry)
qed

lemma translate_loop_mapped:
  assumes "wf_mem m" "mapped_from m l tbl v"
  shows "\<exists>pa. translate_loop (Suc l) tbl v m = Some pa \<and> pa \<noteq> NOT 0 \<and>
               pa AND (PAGE_SIZE - 1) = v AND (PAGE_SIZE - 1)"
  using assms
proof (induction l arbitrary: tbl)
  case 0
  then obtain c where c: "points m tbl (unat (extract_level_index v 0)) c" by auto
  from points_load [OF c] obtain e where
    e: "load m tbl (extract_level_index v 0) = Some e" "e AND VALID_FLAG \<noteq> 0"
       "ENTRY_TO_PHYS_ADDR e = c" by blast
  from wf_mem_target [OF \<open>wf_mem m\<close> c] obtain t' where "m c = Some t'" by auto
  then have "usable_block c" by (rule wf_mem_usable [OF \<open>wf_mem m\<close>])
  then have "c OR (v AND (PAGE_SIZE - 1)) \<noteq> NOT 0" by (rule usable_block_not_top)
  then show ?case
    using e translation_low_bits [of e v] by (simp add: index_not_out_of_range)
next
  case (Suc l)
  then obtain c where c: "points m tbl (unat (extract_level_index v (Suc l))) c"
    and rest: "mapped_from m l c v" by auto
  from points_load [OF c] obtain e where
    e: "load m tbl (extract_level_index v (Suc l)) = Some e" "e AND VALID_FLAG \<noteq> 0"
       "ENTRY_TO_PHYS_ADDR e = c" by blast
  from Suc.IH [OF \<open>wf_mem m\<close> rest] obtain pa where
    "translate_loop (Suc l) c v m = Some pa" "pa \<noteq> NOT 0"
    "pa AND (PAGE_SIZE - 1) = v AND (PAGE_SIZE - 1)" by blast
  then show ?case
    using e by (simp add: index_not_out_of_range del: translate_loop.simps(2))
       (simp add: index_not_out_of_range)
qed

lemma translate_loop_unmapped:
  assumes "wf_mem m" "m tbl \<noteq> None" "\<not> mapped_from m l tbl v"
  shows "translate_loop (Suc l) tbl v m = Some (NOT 0)"
  using assms
proof (induction l arbitrary: tbl)
  case 0
  then have "\<forall>c. \<not> points m tbl (unat (extract_level_index v 0)) c" by simp
  from not_points_load [OF 0(1,2) this] show ?case
    by (auto simp: index_not_out_of_range)
next
  case (Suc l)
  show ?case
  proof (cases "\<exists>c. points m tbl (unat (extract_level_index v (Suc l))) c")
    case False
    then have "\<forall>c. \<not> points m tbl (unat (extract_level_index v (Suc l))) c" by simp
    from not_points_load [OF Suc(2,3) this] show ?thesis
      by (auto simp: index_not_out_of_range)
  next
    case True
    then obtain c where c: "points m tbl (unat (extract_level_index v (Suc l))) c" by blast
    have "\<not> mapped_from m l c v"
    proof
      assume "mapped_from m l c v"
      with c have "mapped_from m (Suc l) tbl v" by auto
      with Suc.prems(3) show False by (rule notE)
    qed
    from Suc.IH [OF Suc(2) wf_mem_target [OF Suc(2) c] this]
    have "translate_loop (Suc l) c v m = Some (NOT 0)" .
    moreover from points_load [OF c] obtain e where
      "load m tbl (extract_level_index v (Suc l)) = Some e" "e AND VALID_FLAG \<noteq> 0"
       "ENTRY_TO_PHYS_ADDR e = c" by blast
    ultimately show ?thesis
      by (subst translate_loop.simps) (simp add: index_not_out_of_range del: translate_loop.simps)
  qed
qed

section \<open>\<open>page_allocate\<close> on a well-formed state\<close>

lemma allocate_walk_mapped:
  "mapped_from m l tbl v \<Longrightarrow> allocate_walk l tbl v answers m = Some m"
proof (induction l arbitrary: tbl)
  case 0
  then obtain c where "points m tbl (unat (extract_level_index v 0)) c" by auto
  from points_load [OF this] show ?case by auto
next
  case (Suc l)
  then obtain c where c: "points m tbl (unat (extract_level_index v (Suc l))) c"
    and rest: "mapped_from m l c v" by auto
  from points_load [OF c] Suc.IH [OF rest] show ?case by auto
qed

lemma new_block_wf:
  assumes "wf_mem m" "m p = None" "usable_block p"
  shows "wf_mem (m(p \<mapsto> replicate (unat ENTRIES_PER_TABLE) 0))"
  using assms unfolding wf_mem_def by (auto simp: points_new_block)

lemma new_block_extends:
  assumes "m p = None"
  shows "extends m (m(p \<mapsto> replicate n 0))"
  using assms unfolding extends_def by (auto simp: points_new_block)

lemma extends_untargeted:
  assumes "extends m m'" "m r \<noteq> None" "\<forall>a i. \<not> points m a i r"
  shows "\<not> points m' a i r"
proof
  assume "points m' a i r"
  with assms(1) have "points m a i r \<or> m r = None" by (simp add: extends_def)
  with assms(2,3) show False by auto
qed

lemma is_address_valid_always: "is_address_valid v"
  by (simp add: is_address_valid_def is_address_valid_loop_True)

lemma all_granted_walk:
  assumes "all_granted answers"
  shows "Suc (LEVELS - 1) \<le> length answers \<and> None \<notin> set (take (Suc (LEVELS - 1)) answers)"
  using assms granted_Suc [of LEVELS answers] by (simp add: all_granted_def LEVELS_def)

lemma page_allocate_correct:
  assumes wf: "wf_state s" and fr: "fresh_answers (mem s) answers"
  shows "\<exists>s'. page_allocate answers v s = Some s' \<and> wf_state s' \<and> extends (mem s) (mem s')
     \<and> (ptbr s \<noteq> 0 \<longrightarrow> ptbr s' = ptbr s)
     \<and> (all_granted answers \<longrightarrow> ptbr s' \<noteq> 0 \<and> mapped_from (mem s') (LEVELS - 1) (ptbr s') v)
     \<and> (\<forall>a i c. points (mem s') a i c \<longrightarrow>
           points (mem s) a i c \<or> (a, i) \<in> path_entries (mem s') (LEVELS - 1) (ptbr s') v)
     \<and> (ptbr s = 0 \<longrightarrow> ptbr s' = 0 \<or> mem s (ptbr s') = None)"
proof (cases "ptbr s = 0")
  case root: False
  from wf root have wfm: "wf_mem (mem s)" and live: "mem s (ptbr s) \<noteq> None"
    and unt: "\<forall>a i. \<not> points (mem s) a i (ptbr s)"
    by (auto simp: wf_state_def)
  from allocate_walk_correct [OF wfm live fr, of "LEVELS - 1" v]
  obtain m' where m': "allocate_walk (LEVELS - 1) (ptbr s) v answers (mem s) = Some m'"
    "wf_mem m'" "extends (mem s) m'"
    "Suc (LEVELS - 1) \<le> length answers \<and> None \<notin> set (take (Suc (LEVELS - 1)) answers)
       \<longrightarrow> mapped_from m' (LEVELS - 1) (ptbr s) v"
    "\<forall>a i c. points m' a i c \<longrightarrow> points (mem s) a i c \<or> (a, i) \<in> path_entries m' (LEVELS - 1) (ptbr s) v"
    by blast
  let ?s' = "s\<lparr>mem := m'\<rparr>"
  have "page_allocate answers v s = Some ?s'"
    using root m'(1) by (simp add: page_allocate_def page_allocate_checked_def is_address_valid_always)
  moreover have "wf_state ?s'"
    using m'(2) root extends_live [OF m'(3) live] extends_untargeted [OF m'(3) live unt]
    by (simp add: wf_state_def)
  moreover have "all_granted answers \<longrightarrow> ptbr ?s' \<noteq> 0 \<and> mapped_from (mem ?s') (LEVELS - 1) (ptbr ?s') v"
    using m'(4) root all_granted_walk [of answers] by auto
  ultimately show ?thesis using m'(3,5) by auto
next
  case noroot: True
  from wf have wfm: "wf_mem (mem s)" by (simp add: wf_state_def)
  have refused: ?thesis if "allocate_aligned_page answers (mem s) = (None, rest, m')" for rest m'
  proof -
    from that have m': "m' = mem s" and "answers = [] \<or> (\<exists>r. answers = None # r)"
      by (auto simp: allocate_aligned_page_def split: list.splits option.splits)
    then have "\<not> all_granted answers"
      by (auto simp: all_granted_def LEVELS_def)
    moreover have "page_allocate answers v s = Some s"
      using noroot that m'
      by (simp add: page_allocate_def page_allocate_checked_def is_address_valid_always)
    ultimately show ?thesis
      using wf noroot extends_refl [of "mem s"] by auto
  qed
  have granted: ?thesis
    if ap: "allocate_aligned_page answers (mem s) = (Some p, rest, m0)" for p rest m0
  proof -
    from ap have ans: "answers = Some p # rest"
      and m0: "m0 = (mem s)(p \<mapsto> replicate (unat ENTRIES_PER_TABLE) 0)"
      by (auto simp: allocate_aligned_page_def split: list.splits option.splits)
    from fr ans have p: "usable_block p" "mem s p = None"
      and fr0: "fresh_answers m0 rest"
      by (auto simp: fresh_answers_def m0)
    have wf0: "wf_mem m0" unfolding m0 by (rule new_block_wf [of "mem s" p, OF wfm p(2,1)])
    have ext0: "extends (mem s) m0" unfolding m0 by (rule new_block_extends [of "mem s" p, OF p(2)])
    have live0: "m0 p \<noteq> None" by (simp add: m0)
    from allocate_walk_correct [OF wf0 live0 fr0, of "LEVELS - 1" v]
    obtain m' where m': "allocate_walk (LEVELS - 1) p v rest m0 = Some m'"
      "wf_mem m'" "extends m0 m'"
      "Suc (LEVELS - 1) \<le> length rest \<and> None \<notin> set (take (Suc (LEVELS - 1)) rest)
         \<longrightarrow> mapped_from m' (LEVELS - 1) p v"
      "\<forall>a i c. points m' a i c \<longrightarrow> points m0 a i c \<or> (a, i) \<in> path_entries m' (LEVELS - 1) p v"
      by blast
    let ?s' = "\<lparr>ptbr = p, mem = m'\<rparr>"
    have "page_allocate answers v s = Some ?s'"
      using noroot ap m'(1)
      by (simp add: page_allocate_def page_allocate_checked_def is_address_valid_always)
    moreover have "wf_state ?s'"
    proof -
      have "\<not> points (mem s) a i p" for a i
        using wf_mem_target [OF wfm, of a i p] p(2) by auto
      then have "\<forall>a i. \<not> points m0 a i p"
        by (simp add: m0 points_new_block [of "mem s" p, OF p(2)])
      from extends_untargeted [OF m'(3) live0 this]
      have "\<not> points m' a i p" for a i .
      moreover have "m' p \<noteq> None" using m'(3) live0 by (rule extends_live)
      ultimately show ?thesis using m'(2) by (simp add: wf_state_def)
    qed
    moreover have "extends (mem s) (mem ?s')"
      using extends_trans [OF ext0 m'(3)] by simp
    moreover have "all_granted answers \<longrightarrow> ptbr ?s' \<noteq> 0 \<and> mapped_from (mem ?s') (LEVELS - 1) (ptbr ?s') v"
      using m'(4) p(1) ans by (auto simp: all_granted_def usable_block_def LEVELS_def)
    moreover have "\<forall>a i c. points (mem ?s') a i c \<longrightarrow>
           points (mem s) a i c \<or> (a, i) \<in> path_entries (mem ?s') (LEVELS - 1) (ptbr ?s') v"
      using m'(5) by (simp add: m0 points_new_block [of "mem s" p, OF p(2)])
    ultimately show ?thesis using noroot p(2) by auto
  qed
  show ?thesis
  proof (cases "allocate_aligned_page answers (mem s)")
    case (fields r rest m0)
    then show ?thesis using refused granted by (cases r) auto
  qed
qed

section \<open>The two loops of \<open>page_deallocate\<close>\<close>

lemma record_path_unmapped:
  assumes "wf_mem m" "m tbl \<noteq> None" "\<not> mapped_from m l tbl v" "l < length indices"
  shows "record_path (Suc l) tbl v m tables indices = Some No_Mapping"
  using assms
proof (induction l arbitrary: tbl tables indices)
  case 0
  then have "\<forall>c. \<not> points m tbl (unat (extract_level_index v 0)) c" by simp
  from not_points_load [OF 0(1,2) this] 0(4) show ?case
    by auto
next
  case (Suc l)
  show ?case
  proof (cases "\<exists>c. points m tbl (unat (extract_level_index v (Suc l))) c")
    case False
    then have "\<forall>c. \<not> points m tbl (unat (extract_level_index v (Suc l))) c" by simp
    from not_points_load [OF Suc(2,3) this] Suc(5) show ?thesis
      by auto
  next
    case True
    then obtain c where c: "points m tbl (unat (extract_level_index v (Suc l))) c" by blast
    have "\<not> mapped_from m l c v"
    proof
      assume "mapped_from m l c v"
      with c have "mapped_from m (Suc l) tbl v" by auto
      with Suc.prems(3) show False by (rule notE)
    qed
    from Suc.IH [OF Suc(2) wf_mem_target [OF Suc(2) c] this]
    have "record_path (Suc l) c v m T I = Some No_Mapping" if "l < length I" for T I
      using that .
    moreover from points_load [OF c] obtain e where
      "load m tbl (extract_level_index v (Suc l)) = Some e" "e AND VALID_FLAG \<noteq> 0"
       "ENTRY_TO_PHYS_ADDR e = c" by blast
    ultimately show ?thesis
      using Suc(5)
      by (subst record_path.simps) (simp del: record_path.simps)
  qed
qed

text \<open>The path of a mapped address, for the three levels of this configuration.\<close>

lemma record_path_mapped:
  assumes "points m r (unat (extract_level_index v 2)) p1"
    "points m p1 (unat (extract_level_index v 1)) p0"
    "points m p0 (unat (extract_level_index v 0)) d"
  shows "record_path LEVELS r v m (replicate LEVELS 0) (replicate LEVELS 0) =
     Some (Path [p0, p1, r]
       [extract_level_index v 0, extract_level_index v 1, extract_level_index v 2])"
proof -
  from points_load [OF assms(1)] points_load [OF assms(2)] points_load [OF assms(3)]
  show ?thesis
    by (auto simp: LEVELS_def eval_nat_numeral)
qed

lemma scan_table_from:
  assumes "m tbl = Some t" "length t = 128" "unat i \<le> 128"
  shows "scan_table tbl i m = Some (\<forall>j. unat i \<le> j \<and> j < 128 \<longrightarrow> t ! j AND VALID_FLAG = 0)"
  using assms
proof (induction tbl i m rule: scan_table.induct)
  case (1 tbl i m)
  show ?case
  proof (cases "i < ENTRIES_PER_TABLE")
    case False
    then have "unat i = 128" using 1(4)
      by (simp add: ENTRIES_PER_TABLE_value word_less_nat_alt)
    then have "\<forall>j. unat i \<le> j \<and> j < 128 \<longrightarrow> t ! j AND VALID_FLAG = 0"
      by auto
    moreover from False have "scan_table tbl i m = Some True"
      by (subst scan_table.simps) simp
    ultimately show ?thesis by simp
  next
    case True
    then have lt: "unat i < 128"
      by (simp add: ENTRIES_PER_TABLE_value word_less_nat_alt)
    then have suc: "unat (i + 1) = Suc (unat i)"
      by (simp add: unat_word_ariths)
    have ld: "load m tbl i = Some (t ! unat i)"
      using 1(2,3) lt by (simp add: load_def)
    show ?thesis
    proof (cases "t ! unat i AND VALID_FLAG = 0")
      case False
      then show ?thesis
        using True ld lt by (subst scan_table.simps) auto
    next
      case inv: True
      from "1.IH" [OF True ld _ 1(2,3)] inv suc lt
      have "scan_table tbl (i + 1) m =
        Some (\<forall>j. Suc (unat i) \<le> j \<and> j < 128 \<longrightarrow> t ! j AND VALID_FLAG = 0)"
        by simp
      moreover have "(\<forall>j. Suc (unat i) \<le> j \<and> j < 128 \<longrightarrow> t ! j AND VALID_FLAG = 0) \<longleftrightarrow>
         (\<forall>j. unat i \<le> j \<and> j < 128 \<longrightarrow> t ! j AND VALID_FLAG = 0)"
      proof (intro iffI allI impI)
        fix j assume a: "\<forall>j. Suc (unat i) \<le> j \<and> j < 128 \<longrightarrow> t ! j AND VALID_FLAG = 0"
          and j: "unat i \<le> j \<and> j < 128"
        show "t ! j AND VALID_FLAG = 0"
        proof (cases "j = unat i")
          case True
          with inv show ?thesis by simp
        next
          case False
          with j have "Suc (unat i) \<le> j \<and> j < 128" by arith
          with a show ?thesis by blast
        qed
      next
        fix j assume a: "\<forall>j. unat i \<le> j \<and> j < 128 \<longrightarrow> t ! j AND VALID_FLAG = 0"
          and j: "Suc (unat i) \<le> j \<and> j < 128"
        then have "unat i \<le> j \<and> j < 128" by arith
        with a show "t ! j AND VALID_FLAG = 0" by blast
      qed
      ultimately show ?thesis
        using True ld inv by (subst scan_table.simps) simp
    qed
  qed
qed

lemma scan_table_points:
  assumes "wf_mem m" "m tbl = Some t"
  shows "scan_table tbl 0 m = Some (\<forall>j c. \<not> points m tbl j c)"
proof -
  have len: "length t = 128" by (rule wf_mem_length [OF assms])
  have "(\<forall>j. j < 128 \<longrightarrow> t ! j AND VALID_FLAG = 0) \<longleftrightarrow> (\<forall>j c. \<not> points m tbl j c)"
    using assms(2) len by (auto simp: points_def)
  with scan_table_from [of m tbl t 0, OF assms(2) len] show ?thesis by simp
qed

lemma cleanup_done: "\<not> level < LEVELS \<Longrightarrow> cleanup level tables indices m = Some m"
  by (subst cleanup.simps) simp

lemma cleanup_stop:
  "level < LEVELS \<Longrightarrow> scan_table (tables ! (level - 1)) 0 m = Some False \<Longrightarrow>
   cleanup level tables indices m = Some m"
  by (subst cleanup.simps) simp

lemma cleanup_free:
  "level < LEVELS \<Longrightarrow> scan_table (tables ! (level - 1)) 0 m = Some True \<Longrightarrow>
   free m (tables ! (level - 1)) = Some m' \<Longrightarrow>
   store m' (tables ! level) (indices ! level) 0 = Some m'' \<Longrightarrow>
   cleanup level tables indices m = cleanup (level + 1) tables indices m''"
  by (subst cleanup.simps) simp

lemma free_live: "p \<noteq> 0 \<Longrightarrow> m p = Some t \<Longrightarrow> free m p = Some (m(p := None))"
  by (simp add: free_def)

lemma store_live:
  "m a = Some t \<Longrightarrow> length t = 128 \<Longrightarrow>
   store m a (extract_level_index v l) x = Some (m(a \<mapsto> t[unat (extract_level_index v l) := x]))"
  by (simp add: store_def index_in_table)

lemma scan_table_live:
  assumes "m tbl = Some t" "length t = 128"
  shows "scan_table tbl 0 m = Some (\<forall>j c. \<not> points m tbl j c)"
proof -
  have "(\<forall>j. j < 128 \<longrightarrow> t ! j AND VALID_FLAG = 0) \<longleftrightarrow> (\<forall>j c. \<not> points m tbl j c)"
    using assms by (auto simp: points_def)
  with scan_table_from [of m tbl t 0, OF assms] show ?thesis by simp
qed

text \<open>The tables on a path are three different blocks.\<close>

lemma path_tables_distinct:
  assumes wf: "wf_mem m" and unt: "\<forall>a i. \<not> points m a i r"
    and 2: "points m r i2 p1" and 1: "points m p1 i1 p0"
  shows "r \<noteq> p1" "r \<noteq> p0" "p1 \<noteq> p0"
proof -
  show "r \<noteq> p1" using unt 2 by auto
  show "r \<noteq> p0" using unt 1 by auto
  show "p1 \<noteq> p0"
  proof
    assume "p1 = p0"
    with 1 have "points m p1 i1 p1" by simp
    with wf_mem_inj [OF wf 2 this] 2 unt show False by auto
  qed
qed

section \<open>What \<open>page_deallocate\<close> does to a mapped address\<close>

lemma cleared_table_empty:
  "m a = Some t \<Longrightarrow> i < length t \<Longrightarrow>
   (\<forall>j c. \<not> points (m(a \<mapsto> t[i := 0])) a j c) \<longleftrightarrow> sole_entry t i"
  by (auto simp: points_def sole_entry_def nth_list_update)

lemma page_deallocate_mapped:
  fixes v :: word64 and s :: state
  defines "m \<equiv> mem s" and "r \<equiv> ptbr s"
  defines "w0 \<equiv> extract_level_index v 0" and "w1 \<equiv> extract_level_index v 1"
    and "w2 \<equiv> extract_level_index v 2"
  assumes wf: "wf_state s" and root: "ptbr s \<noteq> 0"
    and e2: "points m r (unat w2) p1"
    and e1: "points m p1 (unat w1) p0"
    and e0: "points m p0 (unat w0) d"
  shows "\<exists>t2 t1 t0. m r = Some t2 \<and> m p1 = Some t1 \<and> m p0 = Some t0 \<and>
    (if \<not> sole_entry t0 (unat w0) then
       page_deallocate v s = Some (True, s\<lparr>mem := m(p0 \<mapsto> t0[unat w0 := 0])\<rparr>)
     else if \<not> sole_entry t1 (unat w1) then
       page_deallocate v s = Some (True, s\<lparr>mem := m(p0 := None, p1 \<mapsto> t1[unat w1 := 0])\<rparr>)
     else
       page_deallocate v s =
         Some (True, s\<lparr>mem := m(p0 := None, p1 := None, r \<mapsto> t2[unat w2 := 0])\<rparr>))"
proof -
  from wf root have wfm: "wf_mem m" and unt: "\<forall>a i. \<not> points m a i r"
    by (auto simp: wf_state_def m_def r_def)
  from e2 obtain t2 where t2: "m r = Some t2" by (auto simp: points_def)
  from e1 obtain t1 where t1: "m p1 = Some t1" by (auto simp: points_def)
  from e0 obtain t0 where t0: "m p0 = Some t0" by (auto simp: points_def)
  note len = wf_mem_length [OF wfm t2] wf_mem_length [OF wfm t1] wf_mem_length [OF wfm t0]
  have i: "unat w0 < 128" "unat w1 < 128" "unat w2 < 128"
    by (simp_all add: w0_def w1_def w2_def index_in_table)
  note ne = path_tables_distinct [OF wfm unt e2 e1]
  have nz: "p0 \<noteq> 0" "p1 \<noteq> 0"
    using wf_mem_usable [OF wfm t0] wf_mem_usable [OF wfm t1] by (auto simp: usable_block_def)
  let ?T = "[p0, p1, r]" and ?I = "[w0, w1, w2]"
  have path: "record_path LEVELS r v m (replicate LEVELS 0) (replicate LEVELS 0) = Some (Path ?T ?I)"
    unfolding w0_def w1_def w2_def
    by (rule record_path_mapped [OF e2 [unfolded w2_def] e1 [unfolded w1_def] e0 [unfolded w0_def]])
  let ?m1 = "m(p0 \<mapsto> t0[unat w0 := 0])"
  have st0: "store m p0 w0 0 = Some ?m1"
    unfolding w0_def by (rule store_live [of m p0 t0, OF t0 len(3)])
  have pd: "page_deallocate v s =
      (case cleanup 1 ?T ?I ?m1 of None \<Rightarrow> None | Some m2 \<Rightarrow> Some (True, s\<lparr>mem := m2\<rparr>))"
    using root path st0 by (simp add: page_deallocate_def m_def r_def)
  have sc0: "scan_table p0 0 ?m1 = Some (sole_entry t0 (unat w0))"
    using scan_table_live [of ?m1 p0 "t0[unat w0 := 0]"] len(3) i(1)
      cleared_table_empty [of m p0 t0 "unat w0", OF t0] by simp
  let ?m1' = "m(p0 := None)"
  have fr0: "free ?m1 p0 = Some ?m1'"
    using free_live [of p0 ?m1] nz by simp
  let ?m2 = "m(p0 := None, p1 \<mapsto> t1[unat w1 := 0])"
  have t1': "?m1' p1 = Some t1" using t1 ne by simp
  have st1: "store ?m1' p1 w1 0 = Some ?m2"
    unfolding w1_def by (rule store_live [of ?m1' p1 t1, OF t1' len(2)])
  have sc1: "scan_table p1 0 ?m2 = Some (sole_entry t1 (unat w1))"
    using scan_table_live [of ?m2 p1 "t1[unat w1 := 0]"] len(2) i(2)
      cleared_table_empty [of ?m1' p1 t1 "unat w1", OF t1'] by simp
  let ?m2' = "m(p0 := None, p1 := None)"
  have fr1: "free ?m2 p1 = Some ?m2'"
    using free_live [of p1 ?m2] nz by simp
  let ?m3 = "m(p0 := None, p1 := None, r \<mapsto> t2[unat w2 := 0])"
  have t2': "?m2' r = Some t2" using t2 ne by simp
  have st2: "store ?m2' r w2 0 = Some ?m3"
    unfolding w2_def by (rule store_live [of ?m2' r t2, OF t2' len(1)])
  have c3: "cleanup (Suc (Suc (Suc 0))) ?T ?I ?m3 = Some ?m3"
    by (rule cleanup_done) (simp add: LEVELS_def)
  have stop1: "cleanup (Suc 0) ?T ?I ?m1 = Some ?m1" if "\<not> sole_entry t0 (unat w0)"
    using that sc0 by (intro cleanup_stop) (simp_all add: LEVELS_def)
  have go1: "cleanup (Suc 0) ?T ?I ?m1 = cleanup (Suc (Suc 0)) ?T ?I ?m2" if "sole_entry t0 (unat w0)"
    using that sc0 fr0 st1 cleanup_free [of "Suc 0" ?T ?m1 ?m1' ?I ?m2]
    by (simp add: LEVELS_def)
  have stop2: "cleanup (Suc (Suc 0)) ?T ?I ?m2 = Some ?m2" if "\<not> sole_entry t1 (unat w1)"
    using that sc1 by (intro cleanup_stop) (simp_all add: LEVELS_def)
  have go2: "cleanup (Suc (Suc 0)) ?T ?I ?m2 = Some ?m3" if "sole_entry t1 (unat w1)"
    using that sc1 fr1 st2 cleanup_free [of "Suc (Suc 0)" ?T ?m2 ?m2' ?I ?m3] c3
    by (simp add: LEVELS_def)
  show ?thesis
    using t2 t1 t0 pd stop1 go1 stop2 go2 by auto
qed

lemma mapped_from_2:
  "mapped_from m (LEVELS - 1) r v \<longleftrightarrow>
     (\<exists>p1 p0 d. points m r (unat (extract_level_index v 2)) p1 \<and>
        points m p1 (unat (extract_level_index v 1)) p0 \<and>
        points m p0 (unat (extract_level_index v 0)) d)"
proof -
  have "LEVELS - 1 = Suc (Suc 0)" by (simp add: LEVELS_def)
  then show ?thesis by (auto simp: numeral_2_eq_2)
qed

lemma page_deallocate_unmapped:
  assumes "wf_state s" "ptbr s = 0 \<or> \<not> mapped_from (mem s) (LEVELS - 1) (ptbr s) v"
  shows "page_deallocate v s = Some (False, s)"
proof (cases "ptbr s = 0")
  case True
  then show ?thesis by (simp add: page_deallocate_def)
next
  case False
  with assms have "wf_mem (mem s)" "mem s (ptbr s) \<noteq> None"
    "\<not> mapped_from (mem s) (LEVELS - 1) (ptbr s) v"
    by (auto simp: wf_state_def)
  from record_path_unmapped [OF this, of "replicate LEVELS 0" "replicate LEVELS 0"]
  have "record_path LEVELS (ptbr s) v (mem s) (replicate LEVELS 0) (replicate LEVELS 0)
      = Some No_Mapping"
    by (simp add: LEVELS_def)
  with False show ?thesis by (simp add: page_deallocate_def)
qed

lemma points_functional: "points m a i c \<Longrightarrow> points m a i c' \<Longrightarrow> c = c'"
  by (auto simp: points_def)

lemma points_clear:
  "m b = Some t \<Longrightarrow> j < length t \<Longrightarrow>
   points (m(b \<mapsto> t[j := 0])) a i c \<longleftrightarrow> (a, i) \<noteq> (b, j) \<and> points m a i c"
  using points_update [of m b t j 0 a i c] by auto

lemma clear_wf:
  assumes "wf_mem m" "m b = Some t" "j < length t"
  shows "wf_mem (m(b \<mapsto> t[j := 0]))"
proof -
  note pts = points_clear [of m b t j, OF assms(2,3)]
  have "\<forall>a t'. (m(b \<mapsto> t[j := 0])) a = Some t' \<longrightarrow> length t' = unat ENTRIES_PER_TABLE \<and> usable_block a"
    using assms(1,2) by (auto simp: wf_mem_def)
  moreover have "\<forall>a i c. points (m(b \<mapsto> t[j := 0])) a i c \<longrightarrow> (m(b \<mapsto> t[j := 0])) c \<noteq> None"
    using wf_mem_target [OF assms(1)] by (auto simp: pts)
  moreover have "\<forall>a i a' i' c. points (m(b \<mapsto> t[j := 0])) a i c \<longrightarrow>
      points (m(b \<mapsto> t[j := 0])) a' i' c \<longrightarrow> a = a' \<and> i = i'"
    using wf_mem_inj [OF assms(1)] by (simp add: pts) blast
  ultimately show ?thesis unfolding wf_mem_def by blast
qed

lemma release_wf:
  assumes "wf_mem m" "\<forall>a i. \<not> points m a i p"
  shows "wf_mem (m(p := None))"
proof -
  have "\<forall>a t'. (m(p := None)) a = Some t' \<longrightarrow> length t' = unat ENTRIES_PER_TABLE \<and> usable_block a"
    using assms(1) by (auto simp: wf_mem_def)
  moreover have "\<forall>a i c. points (m(p := None)) a i c \<longrightarrow> (m(p := None)) c \<noteq> None"
    using wf_mem_target [OF assms(1)] assms(2) by (auto simp: points_release)
  moreover have "\<forall>a i a' i' c. points (m(p := None)) a i c \<longrightarrow>
      points (m(p := None)) a' i' c \<longrightarrow> a = a' \<and> i = i'"
    using wf_mem_inj [OF assms(1)] by (simp add: points_release) blast
  ultimately show ?thesis unfolding wf_mem_def by blast
qed

text \<open>
  Freeing an empty table \<open>q\<close> and clearing the entry that names it: memory stays
  well formed, and its valid entries are the old ones but that entry.
\<close>

lemma reclaim_points:
  assumes "points m p i q" "\<forall>j c. \<not> points m q j c" "m p = Some t"
  shows "points (m(q := None, p \<mapsto> t[i := 0])) a j c \<longleftrightarrow> (a, j) \<noteq> (p, i) \<and> points m a j c"
proof -
  from assms(1,3) have len: "i < length t" by (auto simp: points_def)
  have ne: "p \<noteq> q" using assms(1,2) by auto
  then have "(m(q := None)) p = Some t" using assms(3) by simp
  from points_clear [of "m(q := None)" p t i, OF this len] show ?thesis
    using assms(2) by (auto simp: points_release)
qed

lemma reclaim_wf:
  assumes wf: "wf_mem m" and e: "points m p i q" and empty: "\<forall>j c. \<not> points m q j c"
    and t: "m p = Some t"
  shows "wf_mem (m(q := None, p \<mapsto> t[i := 0]))"
proof -
  from e t have len: "i < length t" by (auto simp: points_def)
  have ne: "p \<noteq> q" using e empty by auto
  have wf1: "wf_mem (m(p \<mapsto> t[i := 0]))" by (rule clear_wf [OF wf t len])
  have "\<not> points (m(p \<mapsto> t[i := 0])) a j q" for a j
    using wf_mem_inj [OF wf e, of a j] by (auto simp: points_clear [of m p t i, OF t len])
  then have "wf_mem ((m(p \<mapsto> t[i := 0]))(q := None))"
    using release_wf [OF wf1] by blast
  moreover have "(m(p \<mapsto> t[i := 0]))(q := None) = m(q := None, p \<mapsto> t[i := 0])"
    using ne by (simp add: fun_upd_twist)
  ultimately show ?thesis by simp
qed

lemma page_deallocate_removes:
  fixes v :: word64 and s :: state
  defines "m \<equiv> mem s" and "r \<equiv> ptbr s"
  defines "i0 \<equiv> unat (extract_level_index v 0)" and "i1 \<equiv> unat (extract_level_index v 1)"
    and "i2 \<equiv> unat (extract_level_index v 2)"
  assumes wf: "wf_state s" and root: "ptbr s \<noteq> 0"
    and e2: "points m r i2 p1" and e1: "points m p1 i1 p0" and e0: "points m p0 i0 d"
  shows "\<exists>m' (k :: nat). page_deallocate v s = Some (True, s\<lparr>mem := m'\<rparr>) \<and> k \<le> 2 \<and> wf_mem m' \<and>
     (\<forall>a j c. points m' a j c \<longleftrightarrow>
        points m a j c \<and> (a, j) \<noteq> (p0, i0) \<and> (1 \<le> k \<longrightarrow> (a, j) \<noteq> (p1, i1)) \<and>
        (2 \<le> k \<longrightarrow> (a, j) \<noteq> (r, i2))) \<and>
     m' r \<noteq> None \<and>
     (k = 0 \<longrightarrow> (\<exists>j c. points m' p0 j c)) \<and> (k = 1 \<longrightarrow> (\<exists>j c. points m' p1 j c))"
proof -
  from wf root have wfm: "wf_mem m" and unt: "\<forall>a i. \<not> points m a i r"
    by (auto simp: wf_state_def m_def r_def)
  from page_deallocate_mapped [OF wf root e2 [unfolded m_def r_def i2_def]
      e1 [unfolded m_def i1_def] e0 [unfolded m_def i0_def]]
  obtain t2 t1 t0 where t: "m r = Some t2" "m p1 = Some t1" "m p0 = Some t0"
    and eff: "if \<not> sole_entry t0 i0 then
       page_deallocate v s = Some (True, s\<lparr>mem := m(p0 \<mapsto> t0[i0 := 0])\<rparr>)
     else if \<not> sole_entry t1 i1 then
       page_deallocate v s = Some (True, s\<lparr>mem := m(p0 := None, p1 \<mapsto> t1[i1 := 0])\<rparr>)
     else
       page_deallocate v s =
         Some (True, s\<lparr>mem := m(p0 := None, p1 := None, r \<mapsto> t2[i2 := 0])\<rparr>)"
    unfolding m_def r_def i0_def i1_def i2_def by blast
  note ne = path_tables_distinct [OF wfm unt e2 e1]
  have len: "i0 < length t0" "i1 < length t1" "i2 < length t2"
    using e0 e1 e2 t by (auto simp: points_def)
  let ?m1 = "m(p0 \<mapsto> t0[i0 := 0])"
  let ?m2 = "m(p0 := None, p1 \<mapsto> t1[i1 := 0])"
  let ?m3 = "m(p0 := None, p1 := None, r \<mapsto> t2[i2 := 0])"
  have wf1: "wf_mem ?m1" by (rule clear_wf [OF wfm t(3) len(1)])
  have pts1: "points ?m1 a j c \<longleftrightarrow> points m a j c \<and> (a, j) \<noteq> (p0, i0)" for a j c
    using points_clear [of m p0 t0 i0, OF t(3) len(1)] by auto
  have empty1: "(\<forall>j c. \<not> points ?m1 p0 j c) \<longleftrightarrow> sole_entry t0 i0"
    by (rule cleared_table_empty [of m p0 t0 i0, OF t(3) len(1)])
  have e1': "points ?m1 p1 i1 p0" using e1 ne by (simp add: pts1)
  have t1': "?m1 p1 = Some t1" using t ne by simp
  have m2: "?m1(p0 := None, p1 \<mapsto> t1[i1 := 0]) = ?m2" by simp
  have wf2: "wf_mem ?m2" if "sole_entry t0 i0"
    using reclaim_wf [OF wf1 e1' _ t1'] that empty1 by (simp only: m2) 
  have pts2: "points ?m2 a j c \<longleftrightarrow> points m a j c \<and> (a, j) \<noteq> (p0, i0) \<and> (a, j) \<noteq> (p1, i1)"
    if "sole_entry t0 i0" for a j c
    using reclaim_points [OF e1' _ t1', of a j c] that empty1 by (auto simp only: m2 pts1)
  have empty2: "(\<forall>j c. \<not> points ?m2 p1 j c) \<longleftrightarrow> sole_entry t1 i1"
    using cleared_table_empty [of "m(p0 := None)" p1 t1 i1] t ne len by simp
  have e2': "points ?m2 r i2 p1" if "sole_entry t0 i0"
    using e2 ne that by (simp add: pts2)
  have t2': "?m2 r = Some t2" using t ne by simp
  have m3: "?m2(p1 := None, r \<mapsto> t2[i2 := 0]) = ?m3" by simp
  have wf3: "wf_mem ?m3" if "sole_entry t0 i0" "sole_entry t1 i1"
    using reclaim_wf [OF wf2 e2' _ t2'] that empty2 by (simp only: m3)
  have pts3: "points ?m3 a j c \<longleftrightarrow> points m a j c \<and> (a, j) \<noteq> (p0, i0) \<and> (a, j) \<noteq> (p1, i1)
      \<and> (a, j) \<noteq> (r, i2)"
    if "sole_entry t0 i0" "sole_entry t1 i1" for a j c
    using reclaim_points [OF e2' _ t2', of a j c] that empty2 by (auto simp only: m3 pts2)
  consider (zero) "\<not> sole_entry t0 i0" | (one) "sole_entry t0 i0" "\<not> sole_entry t1 i1"
    | (two) "sole_entry t0 i0" "sole_entry t1 i1" by blast
  then show ?thesis
  proof cases
    case zero
    have "page_deallocate v s = Some (True, s\<lparr>mem := ?m1\<rparr>)" using eff zero by simp
    moreover have "\<exists>j c. points ?m1 p0 j c" using empty1 zero by blast
    moreover have "?m1 r \<noteq> None" using t by simp
    ultimately show ?thesis
      using wf1 pts1 by (intro exI [of _ ?m1] exI [of _ "0::nat"]) simp
  next
    case one
    have "page_deallocate v s = Some (True, s\<lparr>mem := ?m2\<rparr>)" using eff one by simp
    moreover have "\<exists>j c. points ?m2 p1 j c" using empty2 one by blast
    moreover have "?m2 r \<noteq> None" using t ne by simp
    ultimately show ?thesis
      using wf2 [OF one(1)] pts2 [OF one(1)]
      by (intro exI [of _ ?m2] exI [of _ "1::nat"]) simp
  next
    case two
    have "page_deallocate v s = Some (True, s\<lparr>mem := ?m3\<rparr>)" using eff two by simp
    moreover have "?m3 r \<noteq> None" by simp
    ultimately show ?thesis
      using wf3 [OF two] pts3 [OF two]
      by (intro exI [of _ ?m3] exI [of _ "2::nat"]) simp
  qed
qed

section \<open>The three operations on the states the program can reach\<close>

lemma page_deallocate_correct:
  assumes wf: "wf_state s"
  shows "\<exists>b s'. page_deallocate v s = Some (b, s') \<and> wf_state s' \<and> ptbr s' = ptbr s \<and>
     (b \<longleftrightarrow> ptbr s \<noteq> 0 \<and> mapped_from (mem s) (LEVELS - 1) (ptbr s) v) \<and>
     (\<not> b \<longrightarrow> s' = s) \<and>
     \<not> (ptbr s' \<noteq> 0 \<and> mapped_from (mem s') (LEVELS - 1) (ptbr s') v)"
proof (cases "ptbr s \<noteq> 0 \<and> mapped_from (mem s) (LEVELS - 1) (ptbr s) v")
  case False
  then have "page_deallocate v s = Some (False, s)"
    using page_deallocate_unmapped [OF wf, of v] by blast
  with False wf show ?thesis by auto
next
  case True
  then have root: "ptbr s \<noteq> 0" by simp
  let ?i0 = "unat (extract_level_index v 0)" and ?i1 = "unat (extract_level_index v 1)"
    and ?i2 = "unat (extract_level_index v 2)"
  from True obtain p1 p0 d where e: "points (mem s) (ptbr s) ?i2 p1"
    "points (mem s) p1 ?i1 p0" "points (mem s) p0 ?i0 d"
    unfolding mapped_from_2 by blast
  from wf root have unt: "\<forall>a i. \<not> points (mem s) a i (ptbr s)"
    by (simp add: wf_state_def)
  from page_deallocate_removes [OF wf root e]
  obtain m' k where r: "page_deallocate v s = Some (True, s\<lparr>mem := m'\<rparr>)" "wf_mem m'"
    "\<And>a j c. points m' a j c \<Longrightarrow> points (mem s) a j c"
    "\<And>c. \<not> points m' p0 ?i0 c" "m' (ptbr s) \<noteq> None"
    by auto
  have "\<not> points m' a i (ptbr s)" for a i
    using r(3) [of a i "ptbr s"] unt by blast
  then have "wf_state (s\<lparr>mem := m'\<rparr>)"
    using r(2,5) by (simp add: wf_state_def)
  moreover have "\<not> mapped_from m' (LEVELS - 1) (ptbr s) v"
  proof
    assume "mapped_from m' (LEVELS - 1) (ptbr s) v"
    then obtain q1 q0 d' where e': "points m' (ptbr s) ?i2 q1"
      "points m' q1 ?i1 q0" "points m' q0 ?i0 d'"
      unfolding mapped_from_2 by blast
    from r(3) [OF e'(1)] e(1) have "q1 = p1" by (rule points_functional)
    with r(3) [OF e'(2)] e(2) have "q0 = p0" by (auto intro: points_functional)
    with e'(3) r(4) show False by simp
  qed
  ultimately show ?thesis using r(1) True by auto
qed

lemma reachable_wf: "reachable s \<Longrightarrow> wf_state s"
proof (induction rule: reachable.induct)
  case start
  show ?case by (simp add: wf_state_def wf_mem_def initial_state_def points_def)
next
  case (allocate s answers v s')
  from page_allocate_correct [OF allocate.IH allocate.hyps(2), of v] allocate.hyps(3)
  show ?case by auto
next
  case (deallocate s v r s')
  from page_deallocate_correct [OF deallocate.IH, of v] deallocate.hyps(2)
  show ?case by auto
qed

lemma translate_correct:
  assumes wf: "wf_state s"
  shows "\<exists>pa. translate v s = Some (pa, s) \<and>
     (if ptbr s \<noteq> 0 \<and> mapped_from (mem s) (LEVELS - 1) (ptbr s) v
      then pa \<noteq> NOT_MAPPED \<and> pa AND (PAGE_SIZE - 1) = v AND (PAGE_SIZE - 1)
      else pa = NOT_MAPPED)"
proof (cases "ptbr s = 0")
  case True
  then show ?thesis by (simp add: translate_def NOT_MAPPED_def)
next
  case root: False
  with wf have wfm: "wf_mem (mem s)" and live: "mem s (ptbr s) \<noteq> None"
    by (auto simp: wf_state_def)
  have L: "LEVELS = Suc (LEVELS - 1)" by (simp add: LEVELS_def)
  show ?thesis
  proof (cases "mapped_from (mem s) (LEVELS - 1) (ptbr s) v")
    case True
    from translate_loop_mapped [OF wfm True] obtain pa where
      "translate_loop LEVELS (ptbr s) v (mem s) = Some pa" "pa \<noteq> NOT 0"
      "pa AND (PAGE_SIZE - 1) = v AND (PAGE_SIZE - 1)"
      using L by auto
    with root True show ?thesis by (simp add: translate_def NOT_MAPPED_def)
  next
    case False
    from translate_loop_unmapped [OF wfm live False]
    have "translate_loop LEVELS (ptbr s) v (mem s) = Some (NOT 0)"
      using L by simp
    with root False show ?thesis by (simp add: translate_def NOT_MAPPED_def)
  qed
qed

lemma low_bits_mask: "take_bit POBITS (w :: word64) = w AND (PAGE_SIZE - 1)"
  by (simp add: take_bit_eq_mask PAGE_SIZE_value POBITS_def mask_eq_exp_minus_1)

section \<open>Tables that are named are not empty\<close>

lemma has_valid_entry_points: "has_valid_entry m c \<longleftrightarrow> (\<exists>j x. points m c j x)"
proof (cases "m c")
  case None
  then show ?thesis by (simp add: has_valid_entry_def points_def)
next
  case (Some t)
  have "(\<exists>e \<in> set t. e AND VALID_FLAG \<noteq> 0) \<longleftrightarrow> (\<exists>j < length t. t ! j AND VALID_FLAG \<noteq> 0)"
    by (metis in_set_conv_nth)
  with Some show ?thesis by (simp add: has_valid_entry_def points_def)
qed

lemma no_empty_table_below_Suc:
  "no_empty_table_below m (Suc l) tbl \<longleftrightarrow>
     m tbl \<noteq> None \<and>
     (\<forall>i c. points m tbl i c \<longrightarrow> has_valid_entry m c \<and> no_empty_table_below m l c)"
proof (cases "m tbl")
  case None
  then show ?thesis by simp
next
  case (Some t)
  have "(\<forall>e \<in> set t. e AND VALID_FLAG \<noteq> 0 \<longrightarrow> P (ENTRY_TO_PHYS_ADDR e)) \<longleftrightarrow>
        (\<forall>i c. points m tbl i c \<longrightarrow> P c)" for P
    using Some by (auto simp: points_def all_set_conv_all_nth)
  from this [of "\<lambda>c. has_valid_entry m c \<and> no_empty_table_below m l c"] Some
  show ?thesis by simp
qed

lemma no_empty_table_points:
  "no_empty_table s \<longleftrightarrow>
     ptbr s = 0 \<or>
     (mem s (ptbr s) \<noteq> None \<and>
      (\<forall>i c. points (mem s) (ptbr s) i c \<longrightarrow>
         (\<exists>j x. points (mem s) c j x) \<and>
         (\<forall>j x. points (mem s) c j x \<longrightarrow> (\<exists>k y. points (mem s) x k y))))"
proof -
  have "LEVELS - 1 = Suc (Suc 0)" by (simp add: LEVELS_def)
  then have "no_empty_table_below (mem s) (LEVELS - 1) (ptbr s) \<longleftrightarrow>
     (mem s (ptbr s) \<noteq> None \<and>
      (\<forall>i c. points (mem s) (ptbr s) i c \<longrightarrow>
         (\<exists>j x. points (mem s) c j x) \<and> mem s c \<noteq> None \<and>
         (\<forall>j x. points (mem s) c j x \<longrightarrow> (\<exists>k y. points (mem s) x k y))))"
    by (simp add: no_empty_table_below_Suc has_valid_entry_points
        del: no_empty_table_below.simps(2))
  moreover have "mem s c \<noteq> None" if "\<exists>j x. points (mem s) c j x" for c
    using that points_live by blast
  ultimately show ?thesis
    unfolding no_empty_table_def by blast
qed

text \<open>
  The argument for \<open>page_allocate\<close>, on the relation "entry \<open>i\<close> of \<open>a\<close> is valid
  and names \<open>c\<close>" before (\<open>P\<close>) and after (\<open>P'\<close>) the call.
\<close>

lemma alloc_keeps_full:
  fixes P P' :: "word64 \<Rightarrow> nat \<Rightarrow> word64 \<Rightarrow> bool"
  assumes inj: "\<And>a i a' i' c. P' a i c \<Longrightarrow> P' a' i' c \<Longrightarrow> a = a' \<and> i = i'"
    and func: "\<And>a i c c'. P' a i c \<Longrightarrow> P' a i c' \<Longrightarrow> c = c'"
    and unt: "\<And>a i. \<not> P' a i r"
    and mono: "\<And>a i c. P a i c \<Longrightarrow> P' a i c"
    and path: "P' r i2 p1" "P' p1 i1 p0" "P' p0 i0 d"
    and new: "\<And>a i c. P' a i c \<Longrightarrow>
        P a i c \<or> (a, i) = (r, i2) \<or> (a, i) = (p1, i1) \<or> (a, i) = (p0, i0)"
    and fresh: "\<And>a i c j x. P' a i c \<Longrightarrow> \<not> P a i c \<Longrightarrow> \<not> P c j x"
    and old: "\<And>i c. P r i c \<Longrightarrow>
        (\<exists>j x. P c j x) \<and> (\<forall>j x. P c j x \<longrightarrow> (\<exists>k y. P x k y))"
    and top: "P' r i c"
  shows "(\<exists>j x. P' c j x) \<and> (\<forall>j x. P' c j x \<longrightarrow> (\<exists>k y. P' x k y))"
proof -
  have r_p1: "r \<noteq> p1" using unt path(1) by auto
  have r_p0: "r \<noteq> p0" using unt path(2) by auto
  have p1_p0: "p1 \<noteq> p0"
  proof
    assume "p1 = p0"
    with path(2) have "P' p1 i1 p1" by simp
    from inj [OF path(1) this] r_p1 show False by simp
  qed
  have leaf_full: "\<exists>k y. P' p0 k y" using path(3) by blast
  text \<open>A new entry of a table under the root is the path's entry of level 1.\<close>
  have new_below: "x = p0" if "P' c j x" "\<not> P c j x" "P' r i c" for j x
  proof -
    from new [OF that(1)] that(2)
    consider "(c, j) = (r, i2)" | "(c, j) = (p1, i1)" | "(c, j) = (p0, i0)" by blast
    then show ?thesis
    proof cases
      case 1
      with that(3) unt show ?thesis by simp
    next
      case 2
      with that(1) path(2) show ?thesis by (auto dest: func)
    next
      case 3
      with that(3) have "P' r i p0" by simp
      from inj [OF this path(2)] r_p1 show ?thesis by simp
    qed
  qed
  show ?thesis
  proof (cases "P r i c")
    case True
    from old [OF True] obtain j x where "P c j x" by blast
    then have "\<exists>j x. P' c j x" using mono by blast
    moreover have "\<exists>k y. P' x k y" if "P' c j x" for j x
    proof (cases "P c j x")
      case True
      with old [OF \<open>P r i c\<close>] obtain k y where "P x k y" by blast
      then show ?thesis using mono by blast
    next
      case False
      from new_below [OF that False top] leaf_full show ?thesis by simp
    qed
    ultimately show ?thesis by blast
  next
    case False
    from new [OF top] False
    consider "(r, i) = (r, i2)" | "(r, i) = (p1, i1)" | "(r, i) = (p0, i0)" by blast
    then have c: "c = p1"
    proof cases
      case 1
      with top path(1) show ?thesis by (auto dest: func)
    next
      case 2
      with r_p1 show ?thesis by simp
    next
      case 3
      with r_p0 show ?thesis by simp
    qed
    have "\<exists>j x. P' c j x" using c path(2) by blast
    moreover have "\<exists>k y. P' x k y" if "P' c j x" for j x
    proof -
      have "\<not> P c j x" using fresh [OF top False] .
      from new_below [OF that this top] leaf_full show ?thesis by simp
    qed
    ultimately show ?thesis by blast
  qed
qed

text \<open>Removing the one valid entry that names \<open>q\<close> moves the exception to its table.\<close>

lemma removal_keeps_full:
  fixes P :: "word64 \<Rightarrow> nat \<Rightarrow> word64 \<Rightarrow> bool"
  assumes inj: "\<And>a i a' i' c. P a i c \<Longrightarrow> P a' i' c \<Longrightarrow> a = a' \<and> i = i'"
    and full: "full_except P r q"
    and e: "P p i q"
  shows "full_except (\<lambda>a j c. P a j c \<and> (a, j) \<noteq> (p, i)) r p"
  unfolding full_except_def
proof (intro allI impI conjI)
  fix i' c
  assume top: "P r i' c \<and> (r, i') \<noteq> (p, i)"
  have cq: "c \<noteq> q"
  proof
    assume "c = q"
    with top have "P r i' q" by simp
    from inj [OF this e] top show False by simp
  qed
  {
    assume "c \<noteq> p"
    moreover from full top cq obtain j x where "P c j x"
      unfolding full_except_def by blast
    ultimately show "\<exists>j x. P c j x \<and> (c, j) \<noteq> (p, i)" by auto
  }
  fix j x
  assume below: "P c j x \<and> (c, j) \<noteq> (p, i)" and xp: "x \<noteq> p"
  have "x \<noteq> q"
  proof
    assume "x = q"
    with below have "P c j q" by simp
    from inj [OF this e] below show False by simp
  qed
  with full top below obtain k y where "P x k y"
    unfolding full_except_def by blast
  with xp show "\<exists>k y. P x k y \<and> (x, k) \<noteq> (p, i)" by auto
qed

lemma full_except_weaken:
  assumes "\<And>i c. P r i c \<Longrightarrow> (\<exists>j x. P c j x) \<and> (\<forall>j x. P c j x \<longrightarrow> (\<exists>k y. P x k y))"
  shows "full_except P r q"
  using assms unfolding full_except_def by blast

lemma full_except_close:
  assumes "full_except P r q" "(\<exists>j x. P q j x) \<or> (\<forall>a i. \<not> P a i q)" "P r i c"
  shows "(\<exists>j x. P c j x) \<and> (\<forall>j x. P c j x \<longrightarrow> (\<exists>k y. P x k y))"
  using assms unfolding full_except_def by blast

lemma path_entries_2:
  assumes "points m r (unat (extract_level_index v 2)) p1"
    "points m p1 (unat (extract_level_index v 1)) p0"
  shows "path_entries m (LEVELS - 1) r v =
    {(r, unat (extract_level_index v 2)), (p1, unat (extract_level_index v 1)),
     (p0, unat (extract_level_index v 0))}"
proof -
  have L: "LEVELS - 1 = Suc (Suc 0)" by (simp add: LEVELS_def)
  have "child m r v (Suc (Suc 0)) = p1" "child m p1 v (Suc 0) = p0"
    using assms points_child [of m r v 2 p1] points_child [of m p1 v 1 p0]
    by (simp_all add: numeral_2_eq_2)
  then show ?thesis
    unfolding L by (simp add: numeral_2_eq_2)
qed

lemma page_allocate_keeps_full:
  assumes wf: "wf_state s" and fr: "fresh_answers (mem s) answers"
    and gr: "all_granted answers" and full: "no_empty_table s"
    and pa: "page_allocate answers v s = Some s'"
  shows "no_empty_table s'"
proof -
  let ?m = "mem s" and ?m' = "mem s'" and ?r = "ptbr s'"
  from page_allocate_correct [OF wf fr, of v] pa gr
  have wf': "wf_state s'" and ext: "extends ?m ?m'"
    and same: "ptbr s \<noteq> 0 \<longrightarrow> ptbr s' = ptbr s"
    and root: "?r \<noteq> 0" and mapped: "mapped_from ?m' (LEVELS - 1) ?r v"
    and new: "\<forall>a i c. points ?m' a i c \<longrightarrow>
           points ?m a i c \<or> (a, i) \<in> path_entries ?m' (LEVELS - 1) ?r v"
    and was_free: "ptbr s = 0 \<longrightarrow> ptbr s' = 0 \<or> ?m ?r = None"
    by auto
  let ?i0 = "unat (extract_level_index v 0)" and ?i1 = "unat (extract_level_index v 1)"
    and ?i2 = "unat (extract_level_index v 2)"
  from mapped obtain p1 p0 d where e: "points ?m' ?r ?i2 p1"
    "points ?m' p1 ?i1 p0" "points ?m' p0 ?i0 d"
    unfolding mapped_from_2 by blast
  from wf' root have wfm': "wf_mem ?m'" and live: "?m' ?r \<noteq> None"
    and unt: "\<And>a i. \<not> points ?m' a i ?r"
    by (auto simp: wf_state_def)
  have new': "points ?m a i c \<or> (a, i) = (?r, ?i2) \<or> (a, i) = (p1, ?i1) \<or> (a, i) = (p0, ?i0)"
    if "points ?m' a i c" for a i c
    using new that unfolding path_entries_2 [OF e(1,2)] by blast
  have fresh: "\<not> points ?m c j x" if "points ?m' a i c" "\<not> points ?m a i c" for a i c j x
  proof -
    from ext that have "?m c = None" unfolding extends_def by blast
    then show ?thesis by (auto simp: points_def)
  qed
  have old: "(\<exists>j x. points ?m c j x) \<and> (\<forall>j x. points ?m c j x \<longrightarrow> (\<exists>k y. points ?m x k y))"
    if "points ?m ?r i c" for i c
  proof (cases "ptbr s = 0")
    case True
    with was_free root have "?m ?r = None" by simp
    with that show ?thesis by (simp add: points_def)
  next
    case False
    with same have "ptbr s' = ptbr s" by simp
    with full False that show ?thesis
      unfolding no_empty_table_points by auto
  qed
  have "(\<exists>j x. points ?m' c j x) \<and> (\<forall>j x. points ?m' c j x \<longrightarrow> (\<exists>k y. points ?m' x k y))"
    if "points ?m' ?r i c" for i c
    using wf_mem_inj [OF wfm'] points_functional unt extends_points [OF ext] e new' fresh old that
    by (rule alloc_keeps_full [where P = "points ?m" and P' = "points ?m'"])
  with live show ?thesis
    unfolding no_empty_table_points by blast
qed

lemma page_deallocate_keeps_full:
  assumes wf: "wf_state s" and full: "no_empty_table s"
    and pd: "page_deallocate v s = Some (b, s')"
  shows "no_empty_table s'"
proof (cases "ptbr s \<noteq> 0 \<and> mapped_from (mem s) (LEVELS - 1) (ptbr s) v")
  case False
  then have "page_deallocate v s = Some (False, s)"
    using page_deallocate_unmapped [OF wf, of v] by blast
  with pd full show ?thesis by simp
next
  case True
  then have root: "ptbr s \<noteq> 0" by simp
  let ?m = "mem s" and ?r = "ptbr s"
  let ?i0 = "unat (extract_level_index v 0)" and ?i1 = "unat (extract_level_index v 1)"
    and ?i2 = "unat (extract_level_index v 2)"
  from True obtain p1 p0 d where e: "points ?m ?r ?i2 p1"
    "points ?m p1 ?i1 p0" "points ?m p0 ?i0 d"
    unfolding mapped_from_2 by blast
  from wf root have wfm: "wf_mem ?m" and unt: "\<forall>a i. \<not> points ?m a i ?r"
    by (simp_all add: wf_state_def)
  note ne = path_tables_distinct [OF wfm unt e(1,2)]
  from page_deallocate_removes [OF wf root e]
  have "\<exists>m' (k :: nat). page_deallocate v s = Some (True, s\<lparr>mem := m'\<rparr>) \<and> k \<le> 2 \<and>
     wf_mem m' \<and>
     (\<forall>a j c. points m' a j c \<longleftrightarrow>
        points ?m a j c \<and> (a, j) \<noteq> (p0, ?i0) \<and> (1 \<le> k \<longrightarrow> (a, j) \<noteq> (p1, ?i1)) \<and>
        (2 \<le> k \<longrightarrow> (a, j) \<noteq> (?r, ?i2))) \<and>
     m' ?r \<noteq> None \<and>
     (k = 0 \<longrightarrow> (\<exists>j c. points m' p0 j c)) \<and> (k = 1 \<longrightarrow> (\<exists>j c. points m' p1 j c))"
    (is "\<exists>m' k. ?B m' k") .
  then obtain m' k where b: "?B m' k" by (elim exE) (rule that)
  from b have res: "page_deallocate v s = Some (True, s\<lparr>mem := m'\<rparr>)"
    by (elim conjE)
  from b have k: "k \<le> 2"
    by (elim conjE)
  from b have pts': "\<forall>a j c. points m' a j c \<longleftrightarrow>
        points ?m a j c \<and> (a, j) \<noteq> (p0, ?i0) \<and> (1 \<le> k \<longrightarrow> (a, j) \<noteq> (p1, ?i1)) \<and>
        (2 \<le> k \<longrightarrow> (a, j) \<noteq> (?r, ?i2))"
    by (elim conjE)
  from b have live: "m' ?r \<noteq> None"
    by (elim conjE)
  from b have stop0: "k = 0 \<longrightarrow> (\<exists>j c. points m' p0 j c)"
    by (elim conjE)
  from b have stop1: "k = 1 \<longrightarrow> (\<exists>j c. points m' p1 j c)"
    by (elim conjE)
  note stop = stop0 stop1
  from res pd have s': "s' = s\<lparr>mem := m'\<rparr>" by simp
  from pts' have pts: "points m' a j c \<longleftrightarrow>
        points ?m a j c \<and> (a, j) \<noteq> (p0, ?i0) \<and> (1 \<le> k \<longrightarrow> (a, j) \<noteq> (p1, ?i1)) \<and>
        (2 \<le> k \<longrightarrow> (a, j) \<noteq> (?r, ?i2))" for a j c
    by blast
  let ?P1 = "\<lambda>a j c. points ?m a j c \<and> (a, j) \<noteq> (p0, ?i0)"
  let ?P2 = "\<lambda>a j c. ?P1 a j c \<and> (a, j) \<noteq> (p1, ?i1)"
  let ?P3 = "\<lambda>a j c. ?P2 a j c \<and> (a, j) \<noteq> (?r, ?i2)"
  have inj0: "\<And>a i a' i' c. points ?m a i c \<Longrightarrow> points ?m a' i' c \<Longrightarrow> a = a' \<and> i = i'"
    by (rule wf_mem_inj [OF wfm])
  then have inj1: "\<And>a i a' i' c. ?P1 a i c \<Longrightarrow> ?P1 a' i' c \<Longrightarrow> a = a' \<and> i = i'"
    and inj2: "\<And>a i a' i' c. ?P2 a i c \<Longrightarrow> ?P2 a' i' c \<Longrightarrow> a = a' \<and> i = i'"
    by blast+
  have "full_except (points ?m) ?r d"
    using full root unfolding no_empty_table_points by (intro full_except_weaken) auto
  from removal_keeps_full [of "points ?m", OF inj0 this e(3)]
  have f1: "full_except ?P1 ?r p0" .
  have "?P1 p1 ?i1 p0" using e(2) ne by simp
  from removal_keeps_full [of ?P1, OF inj1 f1 this]
  have f2: "full_except ?P2 ?r p1" .
  have "?P2 ?r ?i2 p1" using e(1) ne by simp
  from removal_keeps_full [of ?P2, OF inj2 f2 this]
  have f3: "full_except ?P3 ?r ?r" .
  have "(\<exists>j x. points m' c j x) \<and> (\<forall>j x. points m' c j x \<longrightarrow> (\<exists>k y. points m' x k y))"
    if top: "points m' ?r i c" for i c
  proof -
    consider "k = 0" | "k = 1" | "k = 2" using k by arith
    then show ?thesis
    proof cases
      case 1
      then have eq: "points m' = ?P1" by (intro ext) (simp add: pts)
      from full_except_close [OF f1, of i c] stop(1) 1 top show ?thesis
        unfolding eq by blast
    next
      case 2
      then have eq: "points m' = ?P2" by (intro ext) (simp add: pts)
      from full_except_close [OF f2, of i c] stop(2) 2 top show ?thesis
        unfolding eq by blast
    next
      case 3
      then have eq: "points m' = ?P3" by (intro ext) (simp add: pts)
      have "\<forall>a i. \<not> ?P3 a i ?r" using unt by blast
      from full_except_close [OF f3, of i c] this top show ?thesis
        unfolding eq by blast
    qed
  qed
  with live show ?thesis
    unfolding no_empty_table_points s' by simp
qed

lemma reachable_granted_reachable: "reachable_granted s \<Longrightarrow> reachable s"
  by (induction rule: reachable_granted.induct) (auto intro: reachable.intros)

section \<open>The path recorded by \<open>page_deallocate\<close>\<close>

lemma record_path_is_mapped:
  assumes wf: "wf_state s" and root: "ptbr s \<noteq> 0"
    and path: "record_path LEVELS (ptbr s) v (mem s) (replicate LEVELS 0) (replicate LEVELS 0)
       = Some (Path tables indices)"
  shows "\<exists>p1 p0 d. points (mem s) (ptbr s) (unat (extract_level_index v 2)) p1 \<and>
     points (mem s) p1 (unat (extract_level_index v 1)) p0 \<and>
     points (mem s) p0 (unat (extract_level_index v 0)) d \<and>
     tables = [p0, p1, ptbr s] \<and>
     indices = [extract_level_index v 0, extract_level_index v 1, extract_level_index v 2]"
proof -
  from wf root have wfm: "wf_mem (mem s)" and live: "mem s (ptbr s) \<noteq> None"
    by (auto simp: wf_state_def)
  have "mapped_from (mem s) (LEVELS - 1) (ptbr s) v"
  proof (rule ccontr)
    assume "\<not> mapped_from (mem s) (LEVELS - 1) (ptbr s) v"
    from record_path_unmapped [OF wfm live this, of "replicate LEVELS 0" "replicate LEVELS 0"]
    have "record_path LEVELS (ptbr s) v (mem s) (replicate LEVELS 0) (replicate LEVELS 0)
        = Some No_Mapping"
      by (simp add: LEVELS_def)
    with path show False by simp
  qed
  then obtain p1 p0 d where e: "points (mem s) (ptbr s) (unat (extract_level_index v 2)) p1"
    "points (mem s) p1 (unat (extract_level_index v 1)) p0"
    "points (mem s) p0 (unat (extract_level_index v 0)) d"
    unfolding mapped_from_2 by blast
  from record_path_mapped [OF e] path
  have "tables = [p0, p1, ptbr s] \<and>
     indices = [extract_level_index v 0, extract_level_index v 1, extract_level_index v 2]"
    by simp
  with e show ?thesis by blast
qed

section \<open>Evaluation on the small run\<close>

lemma LEVELS_Suc: "LEVELS = Suc (Suc (Suc 0))" "LEVELS - 1 = Suc (Suc 0)"
  by (simp_all add: LEVELS_def)

lemma index_0: "extract_level_index 0 l = 0"
  by (simp add: extract_level_index_def)

lemma index_74565:
  "extract_level_index 74565 0 = 72" "extract_level_index 74565 (Suc 0) = 0"
  "extract_level_index 74565 (Suc (Suc 0)) = 0"
  by (simp_all add: extract_level_index_def POBITS_def BITS_PER_LEVEL_def
      LEVEL_INDEX_MASK_value drop_bit_eq_div)

lemmas run_defs = page_allocate_def page_allocate_checked_def is_address_valid_always
  allocate_aligned_page_def LEVELS_Suc load_def store_def
  initial_state_def unat_ENTRIES_PER_TABLE PAGE_MASK_value VALID_FLAG_def
  ENTRY_TO_PHYS_ADDR_def Let_def index_0 index_74565

lemma usable_examples:
  "usable_block 4096" "usable_block 8192" "usable_block 12288" "usable_block 16384"
  by (simp_all add: usable_block_def PAGE_SIZE_value)

lemma run_tables_only:
  "page_allocate [Some 4096, Some 8192, Some 12288, None] 0 initial_state = Some tables_only"
  by (simp add: run_defs tables_only_def) (simp add: fun_eq_iff)

lemma run_one_page:
  "page_allocate [Some 16384] 0 tables_only = Some one_page"
  by (simp add: run_defs tables_only_def one_page_def) (simp add: fun_eq_iff)

lemma run_one_page_direct:
  "page_allocate [Some 4096, Some 8192, Some 12288, Some 16384] 0 initial_state = Some one_page"
  by (simp add: run_defs one_page_def) (simp add: fun_eq_iff)

lemma reachable_tables_only: "reachable tables_only"
proof -
  have "fresh_answers (mem initial_state) [Some 4096, Some 8192, Some 12288, None]"
    by (simp add: fresh_answers_def usable_examples initial_state_def)
  from reachable.allocate [OF reachable.start this run_tables_only] show ?thesis .
qed

lemma reachable_granted_one_page: "reachable_granted one_page"
proof -
  have "fresh_answers (mem initial_state) [Some 4096, Some 8192, Some 12288, Some 16384]"
    by (simp add: fresh_answers_def usable_examples initial_state_def)
  moreover have "all_granted [Some 4096, Some 8192, Some 12288, Some 16384]"
    by (simp add: all_granted_def LEVELS_def)
  ultimately show ?thesis
    using reachable_granted.allocate_granted [OF reachable_granted.start_granted _ _ run_one_page_direct]
    by blast
qed

lemmas walk_defs = translate_def page_deallocate_def LEVELS_Suc load_def store_def free_def
  unat_ENTRIES_PER_TABLE PAGE_MASK_value PAGE_SIZE_value VALID_FLAG_def NOT_MAPPED_def
  ENTRY_TO_PHYS_ADDR_def Let_def index_0 index_74565 ENTRIES_PER_TABLE_value

lemma fresh_four: "fresh_answers (mem initial_state) [Some 4096, Some 8192, Some 12288, Some 16384]"
  by (simp add: fresh_answers_def usable_examples initial_state_def)

lemma granted_four: "all_granted [Some 4096, Some 8192, Some 12288, Some 16384]"
  by (simp add: all_granted_def LEVELS_def)

lemma translate_tables_only: "translate 0 tables_only = Some (NOT_MAPPED, tables_only)"
  by (simp add: walk_defs tables_only_def)

lemma translate_one_page: "translate 0 one_page = Some (16384, one_page)"
  by (simp add: walk_defs one_page_def)

lemma points_tables_only:
  "points (mem tables_only) 4096 0 8192" "points (mem tables_only) 8192 0 12288"
  "\<not> points (mem tables_only) 12288 k y"
  by (simp_all add: points_def tables_only_def VALID_FLAG_def ENTRY_TO_PHYS_ADDR_def PAGE_MASK_value)

lemma reachable_one_page: "reachable one_page"
  by (rule reachable_granted_reachable [OF reachable_granted_one_page])

lemma root_one_page: "ptbr one_page \<noteq> 0"
  by (simp add: one_page_def)

lemma record_path_one_page:
  "record_path LEVELS (ptbr one_page) 0 (mem one_page) (replicate LEVELS 0) (replicate LEVELS 0)
     = Some (Path [12288, 8192, 4096] [0, 0, 0])"
  by (simp add: one_page_def LEVELS_Suc index_0 load_def VALID_FLAG_def
      ENTRY_TO_PHYS_ADDR_def PAGE_MASK_value)

lemma fresh_one_page: "fresh_answers (mem one_page) [Some 20480]"
  by (simp add: fresh_answers_def usable_block_def PAGE_SIZE_value one_page_def)

lemma points_one_page:
  "points (mem one_page) (ptbr one_page) (unat (extract_level_index 0 2)) 8192"
  "points (mem one_page) 8192 (unat (extract_level_index 0 1)) 12288"
  "points (mem one_page) 12288 (unat (extract_level_index 0 0)) 16384"
  by (simp_all add: points_def one_page_def index_0 VALID_FLAG_def ENTRY_TO_PHYS_ADDR_def
      PAGE_MASK_value)

lemma wf_one_page: "wf_state one_page"
  by (rule reachable_wf [OF reachable_one_page])

lemma sole_entries_one_page:
  "sole_entry ((replicate 128 0)[0 := x]) 0"
  by (simp add: sole_entry_def VALID_FLAG_def)

lemma cleared_first: "(replicate 128 (0 :: word64))[0 := 0] = replicate 128 0"
  by (simp add: list_eq_iff_nth_eq nth_list_update)

lemma run_deallocate_one_page: "page_deallocate 0 one_page = Some (True, empty_root)"
proof -
  from page_deallocate_mapped [OF wf_one_page root_one_page points_one_page]
  show ?thesis
    using sole_entries_one_page
    by (simp add: one_page_def empty_root_def index_0 cleared_first) (simp add: fun_eq_iff)
qed

lemma root_empty_root: "\<not> has_valid_entry (mem empty_root) (ptbr empty_root)"
  by (simp add: has_valid_entry_def empty_root_def)

lemma translate_unmapped_one_page:
  "translate 74565 one_page = Some (NOT_MAPPED, one_page)"
  by (simp add: walk_defs one_page_def)

section \<open>The claims\<close>

text \<open>
  C1. In every state the program can reach, for every in-bounds virtual address \<open>v\<close>:
  when \<open>page_allocate(v)\<close> succeeds (no block it asks for is refused), it returns,
  and \<open>translate(v)\<close> on the state it leaves returns an address that is not the
  all-ones value \<open>NOT_MAPPED\<close> and whose low \<open>POBITS\<close> bits are those of \<open>v\<close>.
\<close>

theorem allocate_then_translate:
  assumes "reachable s" "fresh_answers (mem s) answers" "all_granted answers"
    "is_address_valid v"
  shows "\<exists>s' pa. page_allocate answers v s = Some s' \<and> translate v s' = Some (pa, s') \<and>
           pa \<noteq> NOT_MAPPED \<and> take_bit POBITS pa = take_bit POBITS v"
proof -
  from page_allocate_correct [OF reachable_wf [OF assms(1)] assms(2), of v] assms(3)
  obtain s' where s': "page_allocate answers v s = Some s'" "wf_state s'"
    "ptbr s' \<noteq> 0" "mapped_from (mem s') (LEVELS - 1) (ptbr s') v"
    by blast
  from translate_correct [OF s'(2), of v] s'(3,4) show ?thesis
    using s'(1) by (auto simp: low_bits_mask)
qed

theorem allocate_then_translate_witness:
  "reachable initial_state \<and>
   fresh_answers (mem initial_state) [Some 4096, Some 8192, Some 12288, Some 16384] \<and>
   all_granted [Some 4096, Some 8192, Some 12288, Some 16384] \<and>
   is_address_valid 74565 \<and>
   (\<exists>s' pa. page_allocate [Some 4096, Some 8192, Some 12288, Some 16384] 74565 initial_state
        = Some s' \<and>
      translate 74565 s' = Some (pa, s') \<and> pa \<noteq> NOT_MAPPED \<and>
      take_bit POBITS pa = take_bit POBITS 74565)"
  using allocate_then_translate [OF reachable.start fresh_four granted_four
      is_address_valid_always, of 74565]
    reachable.start fresh_four granted_four is_address_valid_always [of 74565]
  by blast

text \<open>
  C2, as amended. In every state the program can reach, for every virtual address
  \<open>v\<close>: when \<open>page_allocate(v)\<close> succeeds (no block it asks for is refused), the
  call \<open>page_deallocate(v)\<close> that follows returns 1, and \<open>translate(v)\<close> after it
  returns \<open>NOT_MAPPED\<close>.
\<close>

theorem allocate_then_deallocate:
  assumes "reachable s" "fresh_answers (mem s) answers" "all_granted answers"
  shows "\<exists>s1 s2. page_allocate answers v s = Some s1 \<and>
           page_deallocate v s1 = Some (True, s2) \<and>
           translate v s2 = Some (NOT_MAPPED, s2)"
proof -
  from page_allocate_correct [OF reachable_wf [OF assms(1)] assms(2), of v] assms(3)
  obtain s1 where s1: "page_allocate answers v s = Some s1" "wf_state s1"
    "ptbr s1 \<noteq> 0" "mapped_from (mem s1) (LEVELS - 1) (ptbr s1) v"
    by blast
  from page_deallocate_correct [OF s1(2), of v] s1(3,4)
  obtain s2 where s2: "page_deallocate v s1 = Some (True, s2)" "wf_state s2"
    "\<not> (ptbr s2 \<noteq> 0 \<and> mapped_from (mem s2) (LEVELS - 1) (ptbr s2) v)"
    by auto
  from translate_correct [OF s2(2), of v] s2(3)
  have "translate v s2 = Some (NOT_MAPPED, s2)" by auto
  with s1(1) s2(1) show ?thesis by blast
qed

theorem allocate_then_deallocate_witness:
  "reachable initial_state \<and>
   fresh_answers (mem initial_state) [Some 4096, Some 8192, Some 12288, Some 16384] \<and>
   all_granted [Some 4096, Some 8192, Some 12288, Some 16384] \<and>
   (\<exists>s1 s2. page_allocate [Some 4096, Some 8192, Some 12288, Some 16384] 74565 initial_state
        = Some s1 \<and>
      page_deallocate 74565 s1 = Some (True, s2) \<and>
      translate 74565 s2 = Some (NOT_MAPPED, s2))"
  using allocate_then_deallocate [OF reachable.start fresh_four granted_four, of 74565]
    reachable.start fresh_four granted_four
  by blast

text \<open>
  C2 as stated, for every call of \<open>page_allocate\<close>, fails when the allocator refuses:
  from the initial state, \<open>page_allocate(0)\<close> whose request for the root is refused
  returns with nothing changed (line 96), and \<open>page_deallocate(0)\<close> then returns 0
  (line 135).
\<close>

theorem refused_allocation_then_deallocate:
  "fresh_answers (mem initial_state) [None] \<and>
   page_allocate [None] 0 initial_state = Some initial_state \<and>
   page_deallocate 0 initial_state = Some (False, initial_state)"
  by (simp add: fresh_answers_def run_defs page_deallocate_def)

text \<open>
  C3, as amended. In every state the program can reach, for every virtual address
  \<open>v\<close>: when a first \<open>page_allocate(v)\<close> succeeds (no block it asks for is
  refused), a second \<open>page_allocate(v)\<close> returns and leaves the state exactly as the
  first left it, whatever the allocator would answer: \<open>ptbr\<close>, every table and every
  entry are the same, so \<open>translate(v)\<close> is the same and no page or table is replaced.
\<close>

theorem allocate_twice:
  assumes "reachable s" "fresh_answers (mem s) answers" "all_granted answers"
  shows "\<exists>s1 s2. page_allocate answers v s = Some s1 \<and>
           page_allocate answers' v s1 = Some s2 \<and> s2 = s1 \<and>
           translate v s2 = translate v s1"
proof -
  from page_allocate_correct [OF reachable_wf [OF assms(1)] assms(2), of v] assms(3)
  obtain s1 where s1: "page_allocate answers v s = Some s1" "wf_state s1"
    "ptbr s1 \<noteq> 0" "mapped_from (mem s1) (LEVELS - 1) (ptbr s1) v"
    by blast
  have "page_allocate answers' v s1 = Some s1"
    using s1(3) allocate_walk_mapped [OF s1(4), of answers']
    by (simp add: page_allocate_def page_allocate_checked_def is_address_valid_always)
  with s1(1) show ?thesis by blast
qed

theorem allocate_twice_witness:
  "reachable initial_state \<and>
   fresh_answers (mem initial_state) [Some 4096, Some 8192, Some 12288, Some 16384] \<and>
   all_granted [Some 4096, Some 8192, Some 12288, Some 16384] \<and>
   (\<exists>s1 s2. page_allocate [Some 4096, Some 8192, Some 12288, Some 16384] 74565 initial_state
        = Some s1 \<and>
      page_allocate [Some 20480] 74565 s1 = Some s2 \<and> s2 = s1 \<and>
      translate 74565 s2 = translate 74565 s1)"
  using allocate_twice [OF reachable.start fresh_four granted_four, of 74565 "[Some 20480]"]
    reachable.start fresh_four granted_four
  by blast

text \<open>
  C3 as stated, for every pair of calls, fails when the first call is refused a block
  that the second is granted: from the initial state, a first \<open>page_allocate(0)\<close>
  is granted three tables and refused the data page (line 124), so \<open>translate(0)\<close>
  is \<open>NOT_MAPPED\<close>; a second \<open>page_allocate(0)\<close> is granted the block at 16384,
  and \<open>translate(0)\<close> is then 16384.
\<close>

theorem second_allocation_changes_translation:
  "fresh_answers (mem initial_state) [Some 4096, Some 8192, Some 12288, None] \<and>
   page_allocate [Some 4096, Some 8192, Some 12288, None] 0 initial_state = Some tables_only \<and>
   translate 0 tables_only = Some (NOT_MAPPED, tables_only) \<and>
   fresh_answers (mem tables_only) [Some 16384] \<and>
   page_allocate [Some 16384] 0 tables_only = Some one_page \<and>
   translate 0 one_page = Some (16384, one_page) \<and>
   (16384 :: word64) \<noteq> NOT_MAPPED"
  using run_tables_only run_one_page translate_tables_only translate_one_page
  by (simp add: fresh_answers_def usable_examples initial_state_def tables_only_def NOT_MAPPED_def)

text \<open>
  C4, as amended. In every state reached from the initial state by calls of
  \<open>page_allocate\<close> that are refused no block and calls of \<open>page_deallocate\<close>, every
  valid intermediate-level entry names a live child table that holds at least one
  valid entry.
\<close>

theorem no_empty_table_when_granted: "reachable_granted s \<Longrightarrow> no_empty_table s"
proof (induction rule: reachable_granted.induct)
  case start_granted
  show ?case by (simp add: no_empty_table_def initial_state_def)
next
  case (allocate_granted s answers v s')
  from reachable_wf [OF reachable_granted_reachable [OF allocate_granted.hyps(1)]]
    allocate_granted.hyps(2,3) allocate_granted.IH allocate_granted.hyps(4)
  show ?case by (rule page_allocate_keeps_full)
next
  case (deallocate_granted s v r s')
  from reachable_wf [OF reachable_granted_reachable [OF deallocate_granted.hyps(1)]]
    deallocate_granted.IH deallocate_granted.hyps(2)
  show ?case by (rule page_deallocate_keeps_full)
qed

theorem no_empty_table_when_granted_witness:
  "reachable_granted one_page \<and> no_empty_table one_page"
  using no_empty_table_when_granted [OF reachable_granted_one_page] reachable_granted_one_page by blast

text \<open>
  C4 as stated, for every reachable state, fails after an allocation that is refused in
  the middle of its walk: \<open>page_allocate\<close> returns at once and leaves the tables it
  has linked (lines 110-112 and 123-125). The state \<open>tables_only\<close> is reachable, and
  its level-1 table names a table that has no valid entry.
\<close>

theorem refused_data_page_leaves_empty_table:
  "reachable tables_only \<and> \<not> no_empty_table tables_only"
proof -
  have root: "ptbr tables_only = 4096" by (simp add: tables_only_def)
  have "\<not> no_empty_table tables_only"
  proof
    assume "no_empty_table tables_only"
    then have "\<forall>i c. points (mem tables_only) 4096 i c \<longrightarrow>
         (\<exists>j x. points (mem tables_only) c j x) \<and>
         (\<forall>j x. points (mem tables_only) c j x \<longrightarrow> (\<exists>k y. points (mem tables_only) x k y))"
      unfolding no_empty_table_points root by simp
    with points_tables_only(1,2) have "\<exists>k y. points (mem tables_only) 12288 k y"
      by blast
    with points_tables_only(3) show False by blast
  qed
  with reachable_tables_only show ?thesis by blast
qed

text \<open>
  C5. In every state the program can reach with a root, when the first loop of
  \<open>page_deallocate(v)\<close> records a path (\<open>v\<close> is mapped), the call returns 1 and, for
  some level \<open>k\<close>: the tables of the path that are freed are exactly those below
  level \<open>k\<close>, and each of them had no valid entry but the one on the path (so all
  its entries were invalid once that one was cleared); the table of level \<open>k\<close> is
  kept, with its entry on the path cleared, and unless it is the root it has another
  valid entry; every other block, the tables of the path above level \<open>k\<close> among
  them, is as before, and so is \<open>ptbr\<close>.
\<close>

theorem upward_walk:
  assumes "reachable s" "ptbr s \<noteq> 0"
    "record_path LEVELS (ptbr s) v (mem s) (replicate LEVELS 0) (replicate LEVELS 0)
       = Some (Path tables indices)"
  shows "\<exists>s' k. page_deallocate v s = Some (True, s') \<and> ptbr s' = ptbr s \<and>
     distinct tables \<and> length tables = LEVELS \<and> k < LEVELS \<and>
     (\<forall>l < LEVELS. mem s' (tables ! l) = None \<longleftrightarrow> l < k) \<and>
     (\<forall>l < k. mem s' (tables ! l) = None \<and>
        (\<exists>t. mem s (tables ! l) = Some t \<and> sole_entry t (unat (indices ! l)))) \<and>
     (\<exists>t. mem s (tables ! k) = Some t \<and>
        mem s' (tables ! k) = Some (t[unat (indices ! k) := 0]) \<and>
        (k < LEVELS - 1 \<longrightarrow> \<not> sole_entry t (unat (indices ! k)))) \<and>
     (\<forall>a. a \<notin> set (take (Suc k) tables) \<longrightarrow> mem s' a = mem s a)"
proof -
  note wf = reachable_wf [OF assms(1)]
  let ?w0 = "extract_level_index v 0" and ?w1 = "extract_level_index v 1"
    and ?w2 = "extract_level_index v 2"
  from record_path_is_mapped [OF wf assms(2,3)]
  obtain p1 p0 d where e: "points (mem s) (ptbr s) (unat ?w2) p1"
    "points (mem s) p1 (unat ?w1) p0" "points (mem s) p0 (unat ?w0) d"
    and T: "tables = [p0, p1, ptbr s]" and I: "indices = [?w0, ?w1, ?w2]"
    by blast
  from wf assms(2) have wfm: "wf_mem (mem s)" and unt: "\<forall>a i. \<not> points (mem s) a i (ptbr s)"
    by (simp_all add: wf_state_def)
  note ne = path_tables_distinct [OF wfm unt e(1,2)]
  from page_deallocate_mapped [OF wf assms(2) e]
  obtain t2 t1 t0 where t: "mem s (ptbr s) = Some t2" "mem s p1 = Some t1" "mem s p0 = Some t0"
    and eff: "if \<not> sole_entry t0 (unat ?w0) then
       page_deallocate v s = Some (True, s\<lparr>mem := (mem s)(p0 \<mapsto> t0[unat ?w0 := 0])\<rparr>)
     else if \<not> sole_entry t1 (unat ?w1) then
       page_deallocate v s =
         Some (True, s\<lparr>mem := (mem s)(p0 := None, p1 \<mapsto> t1[unat ?w1 := 0])\<rparr>)
     else
       page_deallocate v s =
         Some (True, s\<lparr>mem := (mem s)(p0 := None, p1 := None,
                                   ptbr s \<mapsto> t2[unat ?w2 := 0])\<rparr>)"
    by blast
  have shape: "distinct tables \<and> length tables = LEVELS"
    using ne by (auto simp: T LEVELS_def)
  consider (zero) "\<not> sole_entry t0 (unat ?w0)"
    | (one) "sole_entry t0 (unat ?w0)" "\<not> sole_entry t1 (unat ?w1)"
    | (two) "sole_entry t0 (unat ?w0)" "sole_entry t1 (unat ?w1)" by blast
  then show ?thesis
  proof cases
    case zero
    let ?s' = "s\<lparr>mem := (mem s)(p0 \<mapsto> t0[unat ?w0 := 0])\<rparr>"
    have "page_deallocate v s = Some (True, ?s')" using eff zero by simp
    then show ?thesis
      using shape zero t
      by (intro exI [of _ ?s'] exI [of _ "0 :: nat"]) (simp add: T I LEVELS_def numeral_3_eq_3 All_less_Suc)
  next
    case one
    let ?s' = "s\<lparr>mem := (mem s)(p0 := None, p1 \<mapsto> t1[unat ?w1 := 0])\<rparr>"
    have "page_deallocate v s = Some (True, ?s')" using eff one by simp
    then show ?thesis
      using shape one t ne
      by (intro exI [of _ ?s'] exI [of _ "Suc 0"]) (simp add: T I LEVELS_def numeral_3_eq_3 All_less_Suc)
  next
    case two
    let ?s' = "s\<lparr>mem := (mem s)(p0 := None, p1 := None, ptbr s \<mapsto> t2[unat ?w2 := 0])\<rparr>"
    have "page_deallocate v s = Some (True, ?s')" using eff two by simp
    then show ?thesis
      using shape two t ne
      by (intro exI [of _ ?s'] exI [of _ "Suc (Suc 0)"])
        (simp add: T I LEVELS_def numeral_3_eq_3 All_less_Suc)
  qed
qed

theorem upward_walk_witness:
  "reachable one_page \<and> ptbr one_page \<noteq> 0 \<and>
   record_path LEVELS (ptbr one_page) 0 (mem one_page) (replicate LEVELS 0) (replicate LEVELS 0)
     = Some (Path [12288, 8192, 4096] [0, 0, 0]) \<and>
   (\<exists>s' k. page_deallocate 0 one_page = Some (True, s') \<and> ptbr s' = ptbr one_page \<and>
     distinct [12288, 8192, 4096 :: word64] \<and> length [12288, 8192, 4096 :: word64] = LEVELS \<and>
     k < LEVELS \<and>
     (\<forall>l < LEVELS. mem s' ([12288, 8192, 4096] ! l) = None \<longleftrightarrow> l < k) \<and>
     (\<forall>l < k. mem s' ([12288, 8192, 4096] ! l) = None \<and>
        (\<exists>t. mem one_page ([12288, 8192, 4096] ! l) = Some t \<and>
             sole_entry t (unat ([0, 0, 0 :: word64] ! l)))) \<and>
     (\<exists>t. mem one_page ([12288, 8192, 4096] ! k) = Some t \<and>
        mem s' ([12288, 8192, 4096] ! k) = Some (t[unat ([0, 0, 0 :: word64] ! k) := 0]) \<and>
        (k < LEVELS - 1 \<longrightarrow> \<not> sole_entry t (unat ([0, 0, 0 :: word64] ! k)))) \<and>
     (\<forall>a. a \<notin> set (take (Suc k) [12288, 8192, 4096]) \<longrightarrow> mem s' a = mem one_page a))"
  using upward_walk [OF reachable_one_page root_one_page record_path_one_page]
    reachable_one_page root_one_page record_path_one_page
  by blast

text \<open>
  C6. In every state the program can reach in which \<open>ptbr\<close> is set, each of the three
  operations returns and leaves \<open>ptbr\<close> as it is; after \<open>page_deallocate\<close> and after
  \<open>page_allocate\<close> the root table is still a live block, also when
  \<open>page_deallocate\<close> has cleared its last valid entry.
\<close>

theorem root_persists:
  assumes "reachable s" "ptbr s \<noteq> 0" "fresh_answers (mem s) answers"
  shows "(\<exists>b s'. page_deallocate v s = Some (b, s') \<and> ptbr s' = ptbr s \<and>
            mem s' (ptbr s) \<noteq> None) \<and>
         (\<exists>s'. page_allocate answers v s = Some s' \<and> ptbr s' = ptbr s \<and>
            mem s' (ptbr s) \<noteq> None) \<and>
         (\<exists>pa. translate v s = Some (pa, s))"
proof -
  note wf = reachable_wf [OF assms(1)]
  from page_deallocate_correct [OF wf, of v] assms(2)
  have "\<exists>b s'. page_deallocate v s = Some (b, s') \<and> ptbr s' = ptbr s \<and>
            mem s' (ptbr s) \<noteq> None"
    by (auto simp: wf_state_def)
  moreover have "\<exists>s'. page_allocate answers v s = Some s' \<and> ptbr s' = ptbr s \<and>
               mem s' (ptbr s) \<noteq> None"
    using page_allocate_correct [OF wf assms(3), of v] assms(2)
    by (auto simp: wf_state_def)
  moreover have "\<exists>pa. translate v s = Some (pa, s)"
    using translate_correct [OF wf, of v] by blast
  ultimately show ?thesis by blast
qed

theorem root_persists_witness:
  "reachable one_page \<and> ptbr one_page \<noteq> 0 \<and> fresh_answers (mem one_page) [Some 20480] \<and>
   page_deallocate 0 one_page = Some (True, empty_root) \<and>
   ptbr empty_root = ptbr one_page \<and> mem empty_root (ptbr one_page) \<noteq> None \<and>
   \<not> has_valid_entry (mem empty_root) (ptbr empty_root) \<and>
   (\<exists>s'. page_allocate [Some 20480] 74565 one_page = Some s' \<and> ptbr s' = ptbr one_page \<and>
            mem s' (ptbr one_page) \<noteq> None) \<and>
   (\<exists>pa. translate 0 one_page = Some (pa, one_page))"
proof -
  from root_persists [OF reachable_one_page root_one_page fresh_one_page, of 0]
    run_deallocate_one_page
  have "ptbr empty_root = ptbr one_page \<and> mem empty_root (ptbr one_page) \<noteq> None"
    by auto
  with root_persists [OF reachable_one_page root_one_page fresh_one_page, of 74565]
    root_persists [OF reachable_one_page root_one_page fresh_one_page, of 0]
    reachable_one_page root_one_page fresh_one_page run_deallocate_one_page root_empty_root
  show ?thesis by blast
qed

text \<open>
  C7. In every state the program can reach, for every virtual address \<open>v\<close>: if there
  is no root, or the entries on the path of \<open>v\<close> are not all valid, or (which is the
  same there) \<open>translate(v)\<close> returns \<open>NOT_MAPPED\<close>, then \<open>page_deallocate(v)\<close>
  returns 0 and the state is exactly as before the call.
\<close>

theorem deallocate_unmapped:
  assumes "reachable s"
    "ptbr s = 0 \<or> \<not> mapped_from (mem s) (LEVELS - 1) (ptbr s) v \<or>
     translate v s = Some (NOT_MAPPED, s)"
  shows "page_deallocate v s = Some (False, s)"
proof -
  note wf = reachable_wf [OF assms(1)]
  from translate_correct [OF wf, of v] assms(2)
  have "ptbr s = 0 \<or> \<not> mapped_from (mem s) (LEVELS - 1) (ptbr s) v"
    by (auto split: if_splits)
  then show ?thesis by (rule page_deallocate_unmapped [OF wf])
qed

theorem deallocate_unmapped_witness:
  "reachable one_page \<and> ptbr one_page \<noteq> 0 \<and>
   translate 74565 one_page = Some (NOT_MAPPED, one_page) \<and>
   page_deallocate 74565 one_page = Some (False, one_page)"
  using deallocate_unmapped [OF reachable_one_page, of 74565] translate_unmapped_one_page
    reachable_one_page root_one_page
  by blast

text \<open>
  C8. For every state and every virtual address \<open>v\<close>: a state that \<open>translate(v)\<close>
  leaves is the state it was given (\<open>ptbr\<close> and every table entry unchanged, nothing
  allocated); without a root it returns \<open>NOT_MAPPED\<close>; and in every state the program
  can reach it returns.
\<close>

theorem translate_read_only:
  "(\<forall>pa s'. translate v s = Some (pa, s') \<longrightarrow> s' = s) \<and>
   (ptbr s = 0 \<longrightarrow> translate v s = Some (NOT_MAPPED, s)) \<and>
   (reachable s \<longrightarrow> (\<exists>pa. translate v s = Some (pa, s)))"
proof -
  have "s' = s" if "translate v s = Some (pa, s')" for pa s'
    using that by (auto simp: translate_def split: if_splits option.splits)
  moreover have "translate v s = Some (NOT_MAPPED, s)" if "ptbr s = 0"
    using that by (simp add: translate_def NOT_MAPPED_def)
  moreover have "\<exists>pa. translate v s = Some (pa, s)" if "reachable s"
    using translate_correct [OF reachable_wf [OF that], of v] by blast
  ultimately show ?thesis by blast
qed

theorem translate_read_only_witness:
  "ptbr initial_state = 0 \<and> translate 74565 initial_state = Some (NOT_MAPPED, initial_state) \<and>
   reachable one_page \<and> (\<exists>pa. translate 0 one_page = Some (pa, one_page))"
  using translate_read_only [of 74565 initial_state] translate_read_only [of 0 one_page]
    reachable_one_page
  by (simp add: initial_state_def)

text \<open>
  C10. For every virtual address and every level, the index that
  \<open>extract_level_index\<close> returns is below \<open>ENTRIES_PER_TABLE\<close>: the index is
  masked to \<open>BITS_PER_LEVEL\<close> bits and a table has \<open>2 ^ BITS_PER_LEVEL\<close> entries.
  So \<open>is_address_valid\<close> returns 1 for every address, and \<open>page_allocate\<close> never
  takes its early return: it is the rest of the function with the check passed.
\<close>

theorem index_always_in_bounds:
  "extract_level_index v level < ENTRIES_PER_TABLE \<and>
   ENTRIES_PER_TABLE = 2 ^ BITS_PER_LEVEL \<and>
   LEVEL_INDEX_MASK = mask BITS_PER_LEVEL \<and>
   is_address_valid v \<and>
   page_allocate answers v s = page_allocate_checked True answers v s"
proof -
  have "ENTRIES_PER_TABLE = 2 ^ BITS_PER_LEVEL"
    by (simp add: ENTRIES_PER_TABLE_value BITS_PER_LEVEL_def POBITS_def)
  moreover have "LEVEL_INDEX_MASK = mask BITS_PER_LEVEL"
    by (simp add: LEVEL_INDEX_MASK_value BITS_PER_LEVEL_def POBITS_def mask_eq_exp_minus_1)
  ultimately show ?thesis
    by (simp add: extract_level_index_less is_address_valid_always page_allocate_def)
qed

theorem index_always_in_bounds_witness:
  "extract_level_index (NOT 0) 2 < ENTRIES_PER_TABLE \<and> is_address_valid (NOT 0) \<and>
   page_allocate [] (NOT 0) initial_state = page_allocate_checked True [] (NOT 0) initial_state"
  using index_always_in_bounds [of "NOT 0" 2 "[]" initial_state] by simp

end
